theory Spec2Isabelle
  imports Main "HOL-Library.Sublist" "HOL-Library.AList"
begin

section \<open>JavaScript strings\<close>

text \<open>
  A JavaScript string is a sequence of UTF-16 code units. The byte-order mark U+FEFF
  the parser tests for does not fit an 8-bit character, so a string is a list of code
  units, each a natural number (a real string holds units below 65536; nothing in the
  parser depends on that bound). \<open>str\<close> turns an ASCII literal into such a list.
\<close>

type_synonym jsstring = "nat list"

definition str :: "string \<Rightarrow> jsstring" where
  "str s = map of_char s"

text \<open>The constants of \<open>const enum ChCode\<close>.\<close>

abbreviation BOM :: nat where "BOM \<equiv> 65279"
abbreviation SPACE :: nat where "SPACE \<equiv> 32"
abbreviation TAB :: nat where "TAB \<equiv> 9"
abbreviation CARRIAGE_RETURN :: nat where "CARRIAGE_RETURN \<equiv> 13"
abbreviation LINE_FEED :: nat where "LINE_FEED \<equiv> 10"
abbreviation SLASH :: nat where "SLASH \<equiv> 47"
abbreviation LESS_THAN :: nat where "LESS_THAN \<equiv> 60"
abbreviation QUESTION_MARK :: nat where "QUESTION_MARK \<equiv> 63"
abbreviation EXCLAMATION_MARK :: nat where "EXCLAMATION_MARK \<equiv> 33"

subsection \<open>The string built-ins the parser calls\<close>

text \<open>
  These follow the ECMAScript definitions of the built-ins, for the arguments the parser
  passes (indices are never negative). \<open>charCodeAt\<close> out of range is \<open>NaN\<close>, here
  \<open>None\<close>; \<open>indexOf\<close> clamps its start to the length and answers \<open>-1\<close>, here
  \<open>None\<close>, when there is no occurrence.
\<close>

definition charCodeAt :: "jsstring \<Rightarrow> nat \<Rightarrow> nat option" where
  "charCodeAt content i = (if i < length content then Some (content ! i) else None)"

definition substr :: "jsstring \<Rightarrow> nat \<Rightarrow> nat \<Rightarrow> jsstring" where
  "substr content start n = take n (drop start content)"

definition substr_from :: "jsstring \<Rightarrow> nat \<Rightarrow> jsstring" where
  "substr_from content start = drop start content"

definition substring :: "jsstring \<Rightarrow> nat \<Rightarrow> nat \<Rightarrow> jsstring" where
  "substring content a b = take (max a b - min a b) (drop (min a b) content)"

fun first_occurrence :: "jsstring \<Rightarrow> jsstring \<Rightarrow> nat option" where
  "first_occurrence d [] = (if d = [] then Some 0 else None)"
| "first_occurrence d (x # xs) =
     (if prefix d (x # xs) then Some 0 else map_option Suc (first_occurrence d xs))"

definition indexOf :: "jsstring \<Rightarrow> jsstring \<Rightarrow> nat \<Rightarrow> nat option" where
  "indexOf content d from =
     (let start = min from (length content)
      in map_option (\<lambda>k. start + k) (first_occurrence d (drop start content)))"

text \<open>
  White space as \<open>String.prototype.trim\<close>, \<open>parseInt\<close> and \<open>parseFloat\<close> strip it:
  the ECMAScript \<open>WhiteSpace\<close> and \<open>LineTerminator\<close> code points.
\<close>

definition isStrWhiteSpace :: "nat \<Rightarrow> bool" where
  "isStrWhiteSpace c \<longleftrightarrow>
     c \<in> {9, 10, 11, 12, 13, 32, 160, 5760, 8232, 8233, 8239, 8287, 12288, 65279}
     \<or> (8192 \<le> c \<and> c \<le> 8202)"

definition trim :: "jsstring \<Rightarrow> jsstring" where
  "trim s = rev (dropWhile isStrWhiteSpace (rev (dropWhile isStrWhiteSpace s)))"

section \<open>Parser state\<close>

text \<open>
  \<open>parse\<close> keeps its state in local variables that its inner functions share. The
  model passes them in a record. Dictionaries and arrays are mutable objects that the
  parser reaches through several references at once (\<open>cur\<close>, the object stack, the
  parent container), so they live in a store: \<open>heap\<close> is the list of objects allocated
  so far and \<open>VRef a\<close> refers to the object at index \<open>a\<close>.
\<close>

datatype State = ROOT_STATE | DICT_STATE | ARR_STATE

text \<open>
  Numbers. The result of \<open>parseInt\<close> is \<open>NaN\<close> or the integer its digits denote, and
  the result of \<open>parseFloat\<close> is \<open>NaN\<close> or the number denoted by the longest prefix that
  is a decimal literal; that number is represented by the literal itself. \<open>NaN\<close> is
  \<open>None\<close>: the parser never stores it. Rounding to a double is outside the model.
\<close>

datatype jsnumber = IntNum int | FloatLit jsstring

datatype jsval =
    VNull
  | VUndefined
  | VString jsstring
  | VNumber jsnumber
  | VBool bool
  | VDate jsstring
  | VRef nat

text \<open>
  An object literal \<open>{}\<close> has own properties, kept in insertion order, and a prototype
  (\<open>None\<close> stands for the initial \<open>Object.prototype\<close>). An array literal has elements.
\<close>

datatype jsobj =
    ODict "(jsstring \<times> jsval) list" "jsval option"
  | OArr "jsval list"

text \<open>
  \<open>Error offset msg excerpt\<close> is the exception \<open>fail\<close> throws; \<open>RangeError\<close> is the
  one \<open>String.fromCodePoint\<close> throws. \<open>Unmodelled\<close> marks an operation on an object of a
  shape the parser never has at that point (a property assignment through something that
  is not a reference to a dictionary, a \<open>push\<close> on something that is not a reference to
  an array).
\<close>

datatype error =
    Error nat jsstring jsstring
  | RangeError
  | Unmodelled

record pstate =
  pos :: nat
  line :: nat
  char :: nat
  state :: State
  cur :: jsval
  stateStack :: "State list"
  objStack :: "jsval list"
  curKey :: "jsstring option"
  heap :: "jsobj list"

section \<open>Scanner\<close>

text \<open>
  \<open>locationKeyName\<close> is the second parameter of \<open>parse\<close>; \<open>None\<close> is \<open>null\<close>, location
  tracking disabled.
\<close>

fun advancePosBy_loop :: "jsstring \<Rightarrow> nat \<Rightarrow> pstate \<Rightarrow> pstate" where
  "advancePosBy_loop content 0 s = s"
| "advancePosBy_loop content (Suc n) s =
     advancePosBy_loop content n
       (if charCodeAt content (pos s) = Some LINE_FEED
        then s\<lparr>pos := pos s + 1, line := line s + 1, char := 0\<rparr>
        else s\<lparr>pos := pos s + 1, char := char s + 1\<rparr>)"

definition advancePosBy :: "jsstring \<Rightarrow> jsstring option \<Rightarrow> nat \<Rightarrow> pstate \<Rightarrow> pstate" where
  "advancePosBy content locationKeyName n s =
     (if locationKeyName = None then s\<lparr>pos := pos s + n\<rparr>
      else advancePosBy_loop content n s)"

text \<open>
  With tracking, \<open>advancePosTo\<close> calls \<open>advancePosBy(to - pos)\<close>; for a negative
  difference the \<open>while (by > 0)\<close> loop does nothing, which is what the truncated
  subtraction of naturals gives.
\<close>

definition advancePosTo :: "jsstring \<Rightarrow> jsstring option \<Rightarrow> nat \<Rightarrow> pstate \<Rightarrow> pstate" where
  "advancePosTo content locationKeyName to s =
     (if locationKeyName = None then s\<lparr>pos := to\<rparr>
      else advancePosBy content locationKeyName (to - pos s) s)"

definition isSkippedWhitespace :: "nat \<Rightarrow> bool" where
  "isSkippedWhitespace chCode \<longleftrightarrow>
     \<not> (chCode \<noteq> SPACE \<and> chCode \<noteq> TAB \<and> chCode \<noteq> CARRIAGE_RETURN \<and> chCode \<noteq> LINE_FEED)"

lemma pos_advancePosBy_loop: "pos (advancePosBy_loop content n s) = pos s + n"
  by (induction n arbitrary: s) simp_all

lemma pos_advancePosBy: "pos (advancePosBy content l n s) = pos s + n"
  by (simp add: advancePosBy_def pos_advancePosBy_loop)

function skipWhitespace :: "jsstring \<Rightarrow> jsstring option \<Rightarrow> pstate \<Rightarrow> pstate" where
  "skipWhitespace content l s =
     (if pos s < length content then
        (if \<not> isSkippedWhitespace (content ! pos s) then s
         else skipWhitespace content l (advancePosBy content l 1 s))
      else s)"
  by pat_completeness auto
termination
  by (relation "measure (\<lambda>(content, l, s). length content - pos s)")
     (auto simp: pos_advancePosBy)

declare skipWhitespace.simps [simp del]

definition advanceIfStartsWith ::
  "jsstring \<Rightarrow> jsstring option \<Rightarrow> jsstring \<Rightarrow> pstate \<Rightarrow> bool \<times> pstate" where
  "advanceIfStartsWith content l d s =
     (if substr content (pos s) (length d) = d
      then (True, advancePosBy content l (length d) s)
      else (False, s))"

definition advanceUntil :: "jsstring \<Rightarrow> jsstring option \<Rightarrow> jsstring \<Rightarrow> pstate \<Rightarrow> pstate" where
  "advanceUntil content l d s =
     (case indexOf content d (pos s) of
        Some nextOccurence \<Rightarrow> advancePosTo content l (nextOccurence + length d) s
      | None \<Rightarrow> advancePosTo content l (length content) s)"

definition captureUntil ::
  "jsstring \<Rightarrow> jsstring option \<Rightarrow> jsstring \<Rightarrow> pstate \<Rightarrow> jsstring \<times> pstate" where
  "captureUntil content l d s =
     (case indexOf content d (pos s) of
        Some nextOccurence \<Rightarrow>
          (substring content (pos s) nextOccurence,
           advancePosTo content l (nextOccurence + length d) s)
      | None \<Rightarrow> (substr_from content (pos s), advancePosTo content l (length content) s))"

section \<open>Tree builder\<close>

text \<open>
  \<open>stateStack\<close> and \<open>objStack\<close> are used as stacks only (\<open>push\<close> and \<open>pop\<close>); the
  head of the list is the top. \<open>pop\<close> on an empty array answers \<open>undefined\<close>: for the
  object that is \<open>VUndefined\<close>, and a state that is \<open>undefined\<close> takes the final
  \<open>else\<close> of every dispatch, as \<open>ROOT_STATE\<close> does.
\<close>

definition pushState :: "State \<Rightarrow> jsval \<Rightarrow> pstate \<Rightarrow> pstate" where
  "pushState newState newCur s =
     s\<lparr>stateStack := state s # stateStack s,
       objStack := cur s # objStack s,
       state := newState,
       cur := newCur\<rparr>"

definition popState :: "pstate \<Rightarrow> pstate" where
  "popState s =
     s\<lparr>state := (case stateStack s of [] \<Rightarrow> ROOT_STATE | st # _ \<Rightarrow> st),
       stateStack := tl (stateStack s),
       cur := (case objStack s of [] \<Rightarrow> VUndefined | v # _ \<Rightarrow> v),
       objStack := tl (objStack s)\<rparr>"

definition fail :: "jsstring \<Rightarrow> pstate \<Rightarrow> jsstring \<Rightarrow> error" where
  "fail content s msg = Error (pos s) msg (substr content (pos s) 50)"

definition bindE :: "error + 'a \<Rightarrow> ('a \<Rightarrow> error + 'b) \<Rightarrow> error + 'b" where
  "bindE m f = (case m of Inl e \<Rightarrow> Inl e | Inr x \<Rightarrow> f x)"

subsection \<open>Objects\<close>

text \<open>
  \<open>cur[curKey] = val\<close> on an ordinary object. Every key but one creates or overwrites an
  own property (insertion order is kept; the reordering of integer-like keys is not
  modelled). The key \<open>__proto__\<close> is the accessor inherited from \<open>Object.prototype\<close>:
  its setter replaces the prototype when the assigned value is an object and does
  nothing otherwise, and no own property is created either way.
\<close>

definition isObject :: "jsval \<Rightarrow> bool" where
  "isObject v = (case v of VRef _ \<Rightarrow> True | VDate _ \<Rightarrow> True | _ \<Rightarrow> False)"

definition assignProperty :: "jsobj list \<Rightarrow> jsval \<Rightarrow> jsstring \<Rightarrow> jsval \<Rightarrow> error + jsobj list" where
  "assignProperty h target key v =
     (case target of
        VRef a \<Rightarrow>
          (if a < length h then
             (case h ! a of
                ODict props proto \<Rightarrow>
                  Inr (h[a :=
                    (if key = str ''__proto__''
                     then ODict props (if isObject v then Some v else proto)
                     else ODict (AList.update key v props) proto)])
              | OArr _ \<Rightarrow> Inl Unmodelled)
           else Inl Unmodelled)
      | _ \<Rightarrow> Inl Unmodelled)"

definition arrayPush :: "jsobj list \<Rightarrow> jsval \<Rightarrow> jsval \<Rightarrow> error + jsobj list" where
  "arrayPush h target v =
     (case target of
        VRef a \<Rightarrow>
          (if a < length h then
             (case h ! a of
                OArr xs \<Rightarrow> Inr (h[a := OArr (xs @ [v])])
              | ODict _ _ \<Rightarrow> Inl Unmodelled)
           else Inl Unmodelled)
      | _ \<Rightarrow> Inl Unmodelled)"

subsection \<open>Containers\<close>

definition dictState_enter :: "jsstring \<Rightarrow> jsobj \<Rightarrow> State \<Rightarrow> pstate \<Rightarrow> error + pstate" where
  "dictState_enter content newObj newState s =
     (case curKey s of
        None \<Rightarrow> Inl (fail content s (str ''missing <key>''))
      | Some k \<Rightarrow>
          (let new = VRef (length (heap s))
           in bindE (assignProperty (heap s @ [newObj]) (cur s) k new)
                (\<lambda>h. Inr (pushState newState new (s\<lparr>heap := h, curKey := None\<rparr>)))))"

definition arrState_enter :: "jsobj \<Rightarrow> State \<Rightarrow> pstate \<Rightarrow> error + pstate" where
  "arrState_enter newObj newState s =
     (let new = VRef (length (heap s))
      in bindE (arrayPush (heap s @ [newObj]) (cur s) new)
           (\<lambda>h. Inr (pushState newState new (s\<lparr>heap := h\<rparr>))))"

definition enterDict :: "jsstring \<Rightarrow> pstate \<Rightarrow> error + pstate" where
  "enterDict content s =
     (if state s = DICT_STATE then dictState_enter content (ODict [] None) DICT_STATE s
      else if state s = ARR_STATE then arrState_enter (ODict [] None) DICT_STATE s
      else (let new = VRef (length (heap s));
                s1 = s\<lparr>heap := heap s @ [ODict [] None], cur := new\<rparr>
            in Inr (pushState DICT_STATE (cur s1) s1)))"

definition leaveDict :: "jsstring \<Rightarrow> pstate \<Rightarrow> error + pstate" where
  "leaveDict content s =
     (if state s = DICT_STATE then Inr (popState s)
      else if state s = ARR_STATE then Inl (fail content s (str ''unexpected </dict>''))
      else Inl (fail content s (str ''unexpected </dict>'')))"

definition enterArray :: "jsstring \<Rightarrow> pstate \<Rightarrow> error + pstate" where
  "enterArray content s =
     (if state s = DICT_STATE then dictState_enter content (OArr []) ARR_STATE s
      else if state s = ARR_STATE then arrState_enter (OArr []) ARR_STATE s
      else (let new = VRef (length (heap s));
                s1 = s\<lparr>heap := heap s @ [OArr []], cur := new\<rparr>
            in Inr (pushState ARR_STATE (cur s1) s1)))"

definition leaveArray :: "jsstring \<Rightarrow> pstate \<Rightarrow> error + pstate" where
  "leaveArray content s =
     (if state s = DICT_STATE then Inl (fail content s (str ''unexpected </array>''))
      else if state s = ARR_STATE then Inr (popState s)
      else Inl (fail content s (str ''unexpected </array>'')))"

subsection \<open>Leaves\<close>

definition acceptKey :: "jsstring \<Rightarrow> jsstring \<Rightarrow> pstate \<Rightarrow> error + pstate" where
  "acceptKey content val s =
     (if state s = DICT_STATE then
        (if curKey s \<noteq> None then Inl (fail content s (str ''too many <key>''))
         else Inr (s\<lparr>curKey := Some val\<rparr>))
      else if state s = ARR_STATE then Inl (fail content s (str ''unexpected <key>''))
      else Inl (fail content s (str ''unexpected <key>'')))"

text \<open>
  The body that \<open>acceptString\<close>, \<open>acceptReal\<close>, \<open>acceptInteger\<close>, \<open>acceptDate\<close>,
  \<open>acceptData\<close> and \<open>acceptBool\<close> each repeat.
\<close>

definition assignCurrent :: "jsstring \<Rightarrow> jsval \<Rightarrow> pstate \<Rightarrow> error + pstate" where
  "assignCurrent content val s =
     (if state s = DICT_STATE then
        (case curKey s of
           None \<Rightarrow> Inl (fail content s (str ''missing <key>''))
         | Some k \<Rightarrow>
             bindE (assignProperty (heap s) (cur s) k val)
               (\<lambda>h. Inr (s\<lparr>heap := h, curKey := None\<rparr>)))
      else if state s = ARR_STATE then
        bindE (arrayPush (heap s) (cur s) val) (\<lambda>h. Inr (s\<lparr>heap := h\<rparr>))
      else Inr (s\<lparr>cur := val\<rparr>))"

definition acceptString :: "jsstring \<Rightarrow> jsstring \<Rightarrow> pstate \<Rightarrow> error + pstate" where
  "acceptString content val s = assignCurrent content (VString val) s"

definition acceptReal :: "jsstring \<Rightarrow> jsstring option \<Rightarrow> pstate \<Rightarrow> error + pstate" where
  "acceptReal content val s =
     (case val of
        None \<Rightarrow> Inl (fail content s (str ''cannot parse float''))
      | Some lit \<Rightarrow> assignCurrent content (VNumber (FloatLit lit)) s)"

definition acceptInteger :: "jsstring \<Rightarrow> int option \<Rightarrow> pstate \<Rightarrow> error + pstate" where
  "acceptInteger content val s =
     (case val of
        None \<Rightarrow> Inl (fail content s (str ''cannot parse integer''))
      | Some i \<Rightarrow> assignCurrent content (VNumber (IntNum i)) s)"

definition acceptDate :: "jsstring \<Rightarrow> jsval \<Rightarrow> pstate \<Rightarrow> error + pstate" where
  "acceptDate content val s = assignCurrent content val s"

definition acceptData :: "jsstring \<Rightarrow> jsstring \<Rightarrow> pstate \<Rightarrow> error + pstate" where
  "acceptData content val s = assignCurrent content (VString val) s"

definition acceptBool :: "jsstring \<Rightarrow> bool \<Rightarrow> pstate \<Rightarrow> error + pstate" where
  "acceptBool content val s = assignCurrent content (VBool val) s"

section \<open>Tag reader\<close>

subsection \<open>Numbers and code points\<close>

text \<open>
  \<open>parseInt(string, radix)\<close> for radix 10 and 16, after ECMAScript: leading white space
  is stripped, one sign is read, for radix 16 a \<open>0x\<close> or \<open>0X\<close> prefix is dropped, and the
  longest run of digits of the radix is the number; with no digit the result is \<open>NaN\<close>.
\<close>

definition digitValue :: "nat \<Rightarrow> nat option" where
  "digitValue c =
     (if 48 \<le> c \<and> c \<le> 57 then Some (c - 48)
      else if 97 \<le> c \<and> c \<le> 122 then Some (c - 87)
      else if 65 \<le> c \<and> c \<le> 90 then Some (c - 55)
      else None)"

definition isRadixDigit :: "nat \<Rightarrow> nat \<Rightarrow> bool" where
  "isRadixDigit radix c = (case digitValue c of None \<Rightarrow> False | Some d \<Rightarrow> d < radix)"

definition digitsToNat :: "nat \<Rightarrow> jsstring \<Rightarrow> nat" where
  "digitsToNat radix ds =
     foldl (\<lambda>acc c. acc * radix + (case digitValue c of Some d \<Rightarrow> d | None \<Rightarrow> 0)) 0 ds"

definition parseInt :: "jsstring \<Rightarrow> nat \<Rightarrow> int option" where
  "parseInt string radix =
     (let S = dropWhile isStrWhiteSpace string;
          negative = (case S of c # _ \<Rightarrow> c = 45 | [] \<Rightarrow> False);
          S1 = (case S of c # rest \<Rightarrow> if c = 43 \<or> c = 45 then rest else S | [] \<Rightarrow> S);
          S2 = (if radix = 16 \<and> (prefix (str ''0x'') S1 \<or> prefix (str ''0X'') S1)
                then drop 2 S1 else S1);
          Z = takeWhile (isRadixDigit radix) S2
      in if Z = [] then None
         else Some ((if negative then - 1 else 1) * int (digitsToNat radix Z)))"

text \<open>
  \<open>parseFloat(string)\<close>: the longest prefix of the string, after leading white space,
  that is a \<open>StrDecimalLiteral\<close> (a sign, then \<open>Infinity\<close> or digits with an optional
  fraction and an optional exponent); \<open>NaN\<close> when no prefix is one.
\<close>

definition isDigit :: "nat \<Rightarrow> bool" where
  "isDigit c \<longleftrightarrow> 48 \<le> c \<and> c \<le> 57"

definition exponentPart :: "jsstring \<Rightarrow> jsstring" where
  "exponentPart r =
     (case r of
        [] \<Rightarrow> []
      | e # rest \<Rightarrow>
          if e = 101 \<or> e = 69 then
            (let sg = (case rest of c # _ \<Rightarrow> if c = 43 \<or> c = 45 then [c] else [] | [] \<Rightarrow> []);
                 ds = takeWhile isDigit (drop (length sg) rest)
             in if ds = [] then [] else e # sg @ ds)
          else [])"

definition unsignedDecimalPrefix :: "jsstring \<Rightarrow> jsstring option" where
  "unsignedDecimalPrefix u =
     (if prefix (str ''Infinity'') u then Some (str ''Infinity'')
      else
        (let ip = takeWhile isDigit u;
             r1 = dropWhile isDigit u;
             fd = (case r1 of c # rest \<Rightarrow> if c = 46 then takeWhile isDigit rest else [] | [] \<Rightarrow> []);
             hasDot = (case r1 of c # _ \<Rightarrow> c = 46 | [] \<Rightarrow> False)
         in if ip = [] \<and> fd = [] then None
            else if hasDot
              then Some (ip @ [46] @ fd @ exponentPart (drop (1 + length fd) r1))
              else Some (ip @ exponentPart r1)))"

definition parseFloat :: "jsstring \<Rightarrow> jsstring option" where
  "parseFloat string =
     (let t = dropWhile isStrWhiteSpace string;
          sg = (case t of c # _ \<Rightarrow> if c = 43 \<or> c = 45 then [c] else [] | [] \<Rightarrow> [])
      in map_option (\<lambda>lit. sg @ lit) (unsignedDecimalPrefix (drop (length sg) t)))"

text \<open>
  \<open>String.fromCodePoint\<close> of one number: a \<open>RangeError\<close> unless the number is an integer
  from 0 to 0x10FFFF; above 0xFFFF the code point is a surrogate pair.
\<close>

definition fromCodePoint :: "int option \<Rightarrow> error + jsstring" where
  "fromCodePoint n =
     (case n of
        None \<Rightarrow> Inl RangeError
      | Some i \<Rightarrow>
          if i < 0 \<or> i > 1114111 then Inl RangeError
          else if i < 65536 then Inr [nat i]
          else Inr [55296 + (nat i - 65536) div 1024, 56320 + (nat i - 65536) mod 1024])"

subsection \<open>escapeVal\<close>

text \<open>
  \<open>str.replace(/re/g, f)\<close> scans from the left: where the expression matches, the match
  is replaced by what \<open>f\<close> returns and the scan goes on behind it; elsewhere one code
  unit is copied. \<open>matchRef p isDig xs\<close> matches \<open>p\<close>, then one or more units of the
  class \<open>isDig\<close>, then \<open>;\<close> at the head of \<open>xs\<close>, and answers the units of the class and
  what follows the match. The class is matched greedily; giving units back cannot help,
  since \<open>;\<close> is not in the class.
\<close>

definition matchRef ::
  "jsstring \<Rightarrow> (nat \<Rightarrow> bool) \<Rightarrow> jsstring \<Rightarrow> (jsstring \<times> jsstring) option" where
  "matchRef p isDig xs =
     (if prefix p xs then
        (let body = drop (length p) xs;
             m0 = takeWhile isDig body;
             rest = dropWhile isDig body
         in case rest of
              c # after \<Rightarrow> if m0 \<noteq> [] \<and> c = 59 then Some (m0, after) else None
            | [] \<Rightarrow> None)
      else None)"

lemma matchRef_shorter:
  "matchRef p isDig xs = Some (m0, after) \<Longrightarrow> length after < length xs"
proof -
  assume a: "matchRef p isDig xs = Some (m0, after)"
  have "length (dropWhile isDig (drop (length p) xs)) \<le> length xs"
    by (metis length_dropWhile_le length_drop diff_le_self le_trans)
  with a show ?thesis
    by (auto simp: matchRef_def Let_def split: if_splits list.splits)
qed

function replaceRefs ::
  "jsstring \<Rightarrow> (nat \<Rightarrow> bool) \<Rightarrow> nat \<Rightarrow> jsstring \<Rightarrow> error + jsstring" where
  "replaceRefs p isDig radix [] = Inr []"
| "replaceRefs p isDig radix (x # xs) =
     (case matchRef p isDig (x # xs) of
        Some (m0, after) \<Rightarrow>
          bindE (fromCodePoint (parseInt m0 radix))
            (\<lambda>cp. case replaceRefs p isDig radix after of
                     Inl e \<Rightarrow> Inl e
                   | Inr r \<Rightarrow> Inr (cp @ r))
      | None \<Rightarrow>
          (case replaceRefs p isDig radix xs of
             Inl e \<Rightarrow> Inl e
           | Inr r \<Rightarrow> Inr (x # r)))"
  by pat_completeness auto
termination
  by (relation "measure (\<lambda>(p, isDig, radix, xs). length xs)")
     (auto dest: matchRef_shorter)

definition isLowerHexDigit :: "nat \<Rightarrow> bool" where
  "isLowerHexDigit c \<longleftrightarrow> (48 \<le> c \<and> c \<le> 57) \<or> (97 \<le> c \<and> c \<le> 102)"

text \<open>The third pass: \<open>/&amp;|&lt;|&gt;|&quot;|&apos;/g\<close> with its \<open>switch\<close>.\<close>

definition namedEntities :: "(jsstring \<times> nat) list" where
  "namedEntities =
     [(str ''&amp;'', 38), (str ''&lt;'', 60), (str ''&gt;'', 62),
      (str ''&quot;'', 34), (str ''&apos;'', 39)]"

definition matchNamed :: "jsstring \<Rightarrow> (jsstring \<times> nat) option" where
  "matchNamed xs = find (\<lambda>(ent, c). prefix ent xs) namedEntities"

function replaceNamed :: "jsstring \<Rightarrow> jsstring" where
  "replaceNamed [] = []"
| "replaceNamed (x # xs) =
     (case matchNamed (x # xs) of
        Some (ent, c) \<Rightarrow> c # replaceNamed (drop (length ent) (x # xs))
      | None \<Rightarrow> x # replaceNamed xs)"
  by pat_completeness auto
termination
  by (relation "measure length")
     (auto simp: matchNamed_def namedEntities_def str_def split: if_splits)

definition escapeVal :: "jsstring \<Rightarrow> error + jsstring" where
  "escapeVal s =
     bindE (replaceRefs (str ''&#'') isDigit 10 s)
       (\<lambda>s1. bindE (replaceRefs (str ''&#x'') isLowerHexDigit 16 s1)
          (\<lambda>s2. Inr (replaceNamed s2)))"

subsection \<open>Tags\<close>

record IParsedTag =
  name :: jsstring
  isClosed :: bool

text \<open>
  \<open>r.charCodeAt(r.length - 1)\<close> is \<open>NaN\<close> for the empty \<open>r\<close>, which is not
  \<open>ChCode.SLASH\<close>.
\<close>

definition parseOpenTag :: "jsstring \<Rightarrow> jsstring option \<Rightarrow> pstate \<Rightarrow> IParsedTag \<times> pstate" where
  "parseOpenTag content l s =
     (let (r, s1) = captureUntil content l (str ''>'') s;
          closed = (r \<noteq> [] \<and> charCodeAt r (length r - 1) = Some SLASH);
          r1 = (if closed then substring r 0 (length r - 1) else r)
      in (\<lparr>name = trim r1, isClosed = closed\<rparr>, s1))"

definition parseTagValue ::
  "jsstring \<Rightarrow> jsstring option \<Rightarrow> IParsedTag \<Rightarrow> pstate \<Rightarrow> error + (jsstring \<times> pstate)" where
  "parseTagValue content l tag s =
     (if isClosed tag then Inr ([], s)
      else
        (let (val, s1) = captureUntil content l (str ''</'') s;
             s2 = advanceUntil content l (str ''>'') s1
         in bindE (escapeVal val) (\<lambda>v. Inr (v, s2))))"

section \<open>The driving loop\<close>

text \<open>The branch of the loop body for a closing tag, entered with \<open>pos\<close> at the \<open>/\<close>.\<close>

definition closingTag :: "jsstring \<Rightarrow> jsstring option \<Rightarrow> pstate \<Rightarrow> error + pstate" where
  "closingTag content l s =
     (let s1 = skipWhitespace content l (advancePosBy content l 1 s);
          (isPlist, s2) = advanceIfStartsWith content l (str ''plist'') s1
      in if isPlist then Inr (advanceUntil content l (str ''>'') s2)
         else
           (let (isDict, s3) = advanceIfStartsWith content l (str ''dict'') s2
            in if isDict then leaveDict content (advanceUntil content l (str ''>'') s3)
               else
                 (let (isArray, s4) = advanceIfStartsWith content l (str ''array'') s3
                  in if isArray then leaveArray content (advanceUntil content l (str ''>'') s4)
                     else Inl (fail content s4 (str ''unexpected closed tag'')))))"

text \<open>The \<open>switch (tag.name)\<close> and what follows it, entered after \<open>parseOpenTag\<close>.\<close>

definition dispatchTag ::
  "jsstring \<Rightarrow> jsstring option \<Rightarrow> IParsedTag \<Rightarrow> pstate \<Rightarrow> error + pstate" where
  "dispatchTag content l tag s =
     (if name tag = str ''dict'' then
        bindE (enterDict content s)
          (\<lambda>s1. if isClosed tag then leaveDict content s1 else Inr s1)
      else if name tag = str ''array'' then
        bindE (enterArray content s)
          (\<lambda>s1. if isClosed tag then leaveArray content s1 else Inr s1)
      else if name tag = str ''key'' then
        bindE (parseTagValue content l tag s) (\<lambda>(v, s1). acceptKey content v s1)
      else if name tag = str ''string'' then
        bindE (parseTagValue content l tag s) (\<lambda>(v, s1). acceptString content v s1)
      else if name tag = str ''real'' then
        bindE (parseTagValue content l tag s) (\<lambda>(v, s1). acceptReal content (parseFloat v) s1)
      else if name tag = str ''integer'' then
        bindE (parseTagValue content l tag s)
          (\<lambda>(v, s1). acceptInteger content (parseInt v 10) s1)
      else if name tag = str ''date'' then
        bindE (parseTagValue content l tag s) (\<lambda>(v, s1). acceptDate content (VDate v) s1)
      else if name tag = str ''data'' then
        bindE (parseTagValue content l tag s) (\<lambda>(v, s1). acceptData content v s1)
      else if name tag = str ''true'' then
        bindE (parseTagValue content l tag s) (\<lambda>(v, s1). acceptBool content True s1)
      else if name tag = str ''false'' then
        bindE (parseTagValue content l tag s) (\<lambda>(v, s1). acceptBool content False s1)
      else if prefix (str ''plist'') (name tag) then Inr s
      else Inl (fail content s (str ''unexpected opened tag '' @ name tag)))"

text \<open>
  One pass through the loop body from \<open>const chCode = content.charCodeAt(pos)\<close> on,
  entered with \<open>pos < len\<close>; \<open>Inr\<close> is the state at the \<open>continue\<close>.
\<close>

definition iteration :: "jsstring \<Rightarrow> jsstring option \<Rightarrow> pstate \<Rightarrow> error + pstate" where
  "iteration content l s =
     (let chCode = charCodeAt content (pos s);
          s1 = advancePosBy content l 1 s
      in if chCode \<noteq> Some LESS_THAN then Inl (fail content s1 (str ''expected <''))
         else if pos s1 \<ge> length content
           then Inl (fail content s1 (str ''unexpected end of input''))
         else
           (let peekChCode = charCodeAt content (pos s1)
            in if peekChCode = Some QUESTION_MARK then
                 Inr (advanceUntil content l (str ''?>'') (advancePosBy content l 1 s1))
               else if peekChCode = Some EXCLAMATION_MARK then
                 (let (isComment, s2) =
                        advanceIfStartsWith content l (str ''--'') (advancePosBy content l 1 s1)
                  in if isComment then Inr (advanceUntil content l (str ''-->'') s2)
                     else Inr (advanceUntil content l (str ''>'') s2))
               else if peekChCode = Some SLASH then closingTag content l s1
               else (let (tag, s2) = parseOpenTag content l s1
                     in dispatchTag content l tag s2)))"

subsection \<open>Every pass through the loop body moves the position forward\<close>

lemma pos_advancePosTo: "pos s \<le> to \<Longrightarrow> pos (advancePosTo content l to s) = to"
  by (simp add: advancePosTo_def pos_advancePosBy)

lemma first_occurrence_bound:
  "first_occurrence d xs = Some k \<Longrightarrow> k + length d \<le> length xs"
proof (induction xs arbitrary: k)
  case Nil
  then show ?case by (simp split: if_splits)
next
  case (Cons x xs)
  show ?case
  proof (cases "prefix d (x # xs)")
    case True
    then have "length d \<le> length (x # xs)" by (rule prefix_length_le)
    with True Cons.prems show ?thesis by simp
  next
    case False
    with Cons show ?thesis by auto
  qed
qed

lemma indexOf_bounds:
  "indexOf content d p = Some k \<Longrightarrow> min p (length content) \<le> k \<and> k + length d \<le> length content"
  by (auto simp: indexOf_def Let_def dest!: first_occurrence_bound)

lemma pos_advanceUntil:
  assumes "pos s \<le> length content"
  shows "pos s \<le> pos (advanceUntil content l d s) \<and> pos (advanceUntil content l d s) \<le> length content"
proof (cases "indexOf content d (pos s)")
  case None
  with assms show ?thesis by (simp add: advanceUntil_def pos_advancePosTo)
next
  case (Some k)
  from indexOf_bounds[OF Some] assms have "pos s \<le> k + length d" "k + length d \<le> length content"
    by auto
  with Some show ?thesis by (simp add: advanceUntil_def pos_advancePosTo)
qed

lemma pos_captureUntil:
  assumes "pos s \<le> length content"
  shows "pos s \<le> pos (snd (captureUntil content l d s)) \<and> pos (snd (captureUntil content l d s)) \<le> length content"
proof (cases "indexOf content d (pos s)")
  case None
  with assms show ?thesis by (simp add: captureUntil_def pos_advancePosTo)
next
  case (Some k)
  from indexOf_bounds[OF Some] assms have "pos s \<le> k + length d" "k + length d \<le> length content"
    by auto
  with Some show ?thesis by (simp add: captureUntil_def pos_advancePosTo)
qed

lemma pos_skipWhitespace_ge: "pos s \<le> pos (skipWhitespace content l s)"
proof (induction content l s rule: skipWhitespace.induct)
  case (1 content l s)
  show ?case
  proof (cases "pos s < length content \<and> isSkippedWhitespace (content ! pos s)")
    case True
    with 1 have "pos (advancePosBy content l 1 s) \<le> pos (skipWhitespace content l (advancePosBy content l 1 s))"
      by simp
    moreover from True have "skipWhitespace content l s = skipWhitespace content l (advancePosBy content l 1 s)"
      by (subst skipWhitespace.simps) simp
    ultimately show ?thesis by (simp add: pos_advancePosBy)
  next
    case False
    then show ?thesis by (subst skipWhitespace.simps) auto
  qed
qed

lemma pos_skipWhitespace_le:
  "pos s \<le> length content \<Longrightarrow> pos (skipWhitespace content l s) \<le> length content"
proof (induction content l s rule: skipWhitespace.induct)
  case (1 content l s)
  show ?case
  proof (cases "pos s < length content \<and> isSkippedWhitespace (content ! pos s)")
    case True
    with 1 show ?thesis
      by (subst skipWhitespace.simps) (simp add: pos_advancePosBy)
  next
    case False
    with 1 show ?thesis by (subst skipWhitespace.simps) auto
  qed
qed

lemma pos_advanceIfStartsWith:
  assumes "pos s \<le> length content"
  shows "pos s \<le> pos (snd (advanceIfStartsWith content l d s))
       \<and> pos (snd (advanceIfStartsWith content l d s)) \<le> length content"
proof (cases "substr content (pos s) (length d) = d")
  case True
  then have "length d = length (take (length d) (drop (pos s) content))"
    by (simp add: substr_def)
  then have "length d \<le> length content - pos s" by simp
  with assms True show ?thesis
    by (simp add: advanceIfStartsWith_def pos_advancePosBy)
next
  case False
  with assms show ?thesis by (simp add: advanceIfStartsWith_def)
qed


lemma pos_pushState [simp]: "pos (pushState st v s) = pos s"
  by (simp add: pushState_def)

lemma pos_popState [simp]: "pos (popState s) = pos s"
  by (simp add: popState_def)

lemma pos_dictState_enter: "dictState_enter content ob st s = Inr s' \<Longrightarrow> pos s' = pos s"
  by (auto simp: dictState_enter_def bindE_def Let_def split: option.splits sum.splits)

lemma pos_arrState_enter: "arrState_enter ob st s = Inr s' \<Longrightarrow> pos s' = pos s"
  by (auto simp: arrState_enter_def bindE_def Let_def split: option.splits sum.splits)

lemma pos_enterDict: "enterDict content s = Inr s' \<Longrightarrow> pos s' = pos s"
  by (auto simp: enterDict_def Let_def split: if_splits
           dest: pos_dictState_enter pos_arrState_enter)

lemma pos_enterArray: "enterArray content s = Inr s' \<Longrightarrow> pos s' = pos s"
  by (auto simp: enterArray_def Let_def split: if_splits
           dest: pos_dictState_enter pos_arrState_enter)

lemma pos_leaveDict: "leaveDict content s = Inr s' \<Longrightarrow> pos s' = pos s"
  by (auto simp: leaveDict_def split: if_splits)

lemma pos_leaveArray: "leaveArray content s = Inr s' \<Longrightarrow> pos s' = pos s"
  by (auto simp: leaveArray_def split: if_splits)

lemma pos_acceptKey: "acceptKey content v s = Inr s' \<Longrightarrow> pos s' = pos s"
  by (auto simp: acceptKey_def split: if_splits)

lemma pos_assignCurrent: "assignCurrent content v s = Inr s' \<Longrightarrow> pos s' = pos s"
  by (auto simp: assignCurrent_def bindE_def split: if_splits option.splits sum.splits)

lemma pos_parseOpenTag:
  assumes "pos s \<le> length content"
  shows "pos s \<le> pos (snd (parseOpenTag content l s))
       \<and> pos (snd (parseOpenTag content l s)) \<le> length content"
  using pos_captureUntil[OF assms, of l "str ''>''"]
  by (auto simp: parseOpenTag_def Let_def split: prod.splits)

lemma pos_parseTagValue:
  assumes "pos s \<le> length content" and "parseTagValue content l tag s = Inr (v, s')"
  shows "pos s \<le> pos s' \<and> pos s' \<le> length content"
proof (cases "isClosed tag")
  case True
  with assms show ?thesis by (simp add: parseTagValue_def)
next
  case False
  obtain val s1 where c: "captureUntil content l (str ''</'') s = (val, s1)"
    by (cases "captureUntil content l (str ''</'') s")
  from pos_captureUntil[OF assms(1), of l "str ''</''"] c
  have s1: "pos s \<le> pos s1" "pos s1 \<le> length content" by simp_all
  from assms(2) False c have "s' = advanceUntil content l (str ''>'') s1"
    by (auto simp: parseTagValue_def bindE_def Let_def split: sum.splits)
  with pos_advanceUntil[OF s1(2), of l "str ''>''"] s1 show ?thesis by simp
qed

lemma pos_dispatchTag:
  assumes "pos s \<le> length content" and "dispatchTag content l tag s = Inr s'"
  shows "pos s \<le> pos s' \<and> pos s' \<le> length content"
proof -
  have leaf: "pos s \<le> pos s' \<and> pos s' \<le> length content"
    if "bindE (parseTagValue content l tag s) (\<lambda>(v, s1). f v s1) = Inr s'"
       and "\<And>v s1 s2. f v s1 = Inr s2 \<Longrightarrow> pos s2 = pos s1" for f
  proof -
    from that(1) obtain v s1 where p: "parseTagValue content l tag s = Inr (v, s1)"
      and f: "f v s1 = Inr s'"
      by (auto simp: bindE_def split: sum.splits)
    from pos_parseTagValue[OF assms(1) p] that(2)[OF f] show ?thesis by simp
  qed
  show ?thesis
    using assms
    unfolding dispatchTag_def
    apply (simp only: split: if_splits)
    subgoal by (auto simp: bindE_def split: sum.splits if_splits dest!: pos_enterDict pos_leaveDict)
    subgoal by (auto simp: bindE_def split: sum.splits if_splits dest!: pos_enterArray pos_leaveArray)
    subgoal by (rule leaf, assumption) (rule pos_acceptKey)
    subgoal by (rule leaf, assumption) (auto simp: acceptString_def dest: pos_assignCurrent)
    subgoal by (rule leaf, assumption) (auto simp: acceptReal_def split: option.splits dest: pos_assignCurrent)
    subgoal by (rule leaf, assumption) (auto simp: acceptInteger_def split: option.splits dest: pos_assignCurrent)
    subgoal by (rule leaf, assumption) (auto simp: acceptDate_def dest: pos_assignCurrent)
    subgoal by (rule leaf, assumption) (auto simp: acceptData_def dest: pos_assignCurrent)
    subgoal by (rule leaf, assumption) (auto simp: acceptBool_def dest: pos_assignCurrent)
    subgoal by (rule leaf, assumption) (auto simp: acceptBool_def dest: pos_assignCurrent)
    subgoal by simp
    subgoal by simp
    done
qed

lemma pos_closingTag:
  assumes "pos s < length content" and "closingTag content l s = Inr s'"
  shows "pos s < pos s' \<and> pos s' \<le> length content"
proof -
  define s1 where "s1 = skipWhitespace content l (advancePosBy content l 1 s)"
  obtain b2 s2 where a2: "advanceIfStartsWith content l (str ''plist'') s1 = (b2, s2)"
    by (cases "advanceIfStartsWith content l (str ''plist'') s1")
  obtain b3 s3 where a3: "advanceIfStartsWith content l (str ''dict'') s2 = (b3, s3)"
    by (cases "advanceIfStartsWith content l (str ''dict'') s2")
  obtain b4 s4 where a4: "advanceIfStartsWith content l (str ''array'') s3 = (b4, s4)"
    by (cases "advanceIfStartsWith content l (str ''array'') s3")
  from assms(1) have s1: "pos s < pos s1" "pos s1 \<le> length content"
    using pos_skipWhitespace_ge[of "advancePosBy content l 1 s" content l]
          pos_skipWhitespace_le[of "advancePosBy content l 1 s" content l]
    by (simp_all add: s1_def pos_advancePosBy)
  from pos_advanceIfStartsWith[OF s1(2), of l "str ''plist''"] a2
  have s2: "pos s1 \<le> pos s2" "pos s2 \<le> length content" by simp_all
  from pos_advanceIfStartsWith[OF s2(2), of l "str ''dict''"] a3
  have s3: "pos s2 \<le> pos s3" "pos s3 \<le> length content" by simp_all
  from pos_advanceIfStartsWith[OF s3(2), of l "str ''array''"] a4
  have s4: "pos s3 \<le> pos s4" "pos s4 \<le> length content" by simp_all
  note u2 = pos_advanceUntil[OF s2(2), of l "str ''>''"]
  note u3 = pos_advanceUntil[OF s3(2), of l "str ''>''"]
  note u4 = pos_advanceUntil[OF s4(2), of l "str ''>''"]
  have
    "(b2 \<and> s' = advanceUntil content l (str ''>'') s2)
     \<or> (b3 \<and> leaveDict content (advanceUntil content l (str ''>'') s3) = Inr s')
     \<or> (b4 \<and> leaveArray content (advanceUntil content l (str ''>'') s4) = Inr s')"
    using assms(2)
    unfolding closingTag_def Let_def s1_def[symmetric]
    by (auto simp: a2 a3 a4 split: if_splits)
  then show ?thesis
    using s1 s2 s3 s4 u2 u3 u4
    by (auto dest!: pos_leaveDict pos_leaveArray)
qed

lemma pos_iteration:
  assumes "pos s < length content" and "iteration content l s = Inr s'"
  shows "pos s < pos s' \<and> pos s' \<le> length content"
proof -
  define s1 where "s1 = advancePosBy content l 1 s"
  have s1: "pos s1 = pos s + 1" by (simp add: s1_def pos_advancePosBy)
  have lt: "pos s1 < length content"
    using assms(2) unfolding iteration_def Let_def s1_def[symmetric]
    by (auto split: if_splits)
  define s2 where "s2 = advancePosBy content l 1 s1"
  have s2: "pos s2 = pos s1 + 1" by (simp add: s2_def pos_advancePosBy)
  with lt have s2le: "pos s2 \<le> length content" by simp
  obtain b3 s3 where a3: "advanceIfStartsWith content l (str ''--'') s2 = (b3, s3)"
    by (cases "advanceIfStartsWith content l (str ''--'') s2")
  from pos_advanceIfStartsWith[OF s2le, of l "str ''--''"] a3
  have s3: "pos s2 \<le> pos s3" "pos s3 \<le> length content" by simp_all
  obtain tag s4 where a4: "parseOpenTag content l s1 = (tag, s4)"
    by (cases "parseOpenTag content l s1")
  from pos_parseOpenTag[of s1 content l] lt a4
  have s4: "pos s1 \<le> pos s4" "pos s4 \<le> length content" by simp_all
  have
    "s' = advanceUntil content l (str ''?>'') s2
     \<or> s' = advanceUntil content l (str ''-->'') s3
     \<or> s' = advanceUntil content l (str ''>'') s3
     \<or> closingTag content l s1 = Inr s'
     \<or> dispatchTag content l tag s4 = Inr s'"
    using assms(2)
    unfolding iteration_def Let_def s1_def[symmetric] s2_def[symmetric]
    by (auto simp: a3 a4 split: if_splits)
  then show ?thesis
    using s1 s2 s3 s4 lt
      pos_advanceUntil[OF s2le, of l "str ''?>''"]
      pos_advanceUntil[OF s3(2), of l "str ''-->''"]
      pos_advanceUntil[OF s3(2), of l "str ''>''"]
      pos_closingTag[OF lt, of l s']
      pos_dispatchTag[OF s4(2), of l tag s']
    by auto
qed

subsection \<open>The loop and \<open>parse\<close>\<close>

text \<open>
  \<open>while (pos < len) { skipWhitespace(); if (pos >= len) break; ... }\<close>. The loop ends
  on an error or with the state in which input is exhausted.
\<close>

function parse_loop :: "jsstring \<Rightarrow> jsstring option \<Rightarrow> pstate \<Rightarrow> error + pstate" where
  "parse_loop content l s =
     (if pos s < length content then
        (let s1 = skipWhitespace content l s
         in if pos s1 \<ge> length content then Inr s1
            else (case iteration content l s1 of
                    Inl e \<Rightarrow> Inl e
                  | Inr s2 \<Rightarrow> parse_loop content l s2))
      else Inr s)"
  by pat_completeness auto
termination
proof (relation "measure (\<lambda>(content, l, s). length content - pos s)")
  show "wf (measure (\<lambda>(content, l, s). length content - pos s))" by simp
next
  fix content :: jsstring and l s s1 s2
  assume "pos s < length content" and s1: "s1 = skipWhitespace content l s"
    and lt: "\<not> length content \<le> pos s1" and it: "iteration content l s1 = Inr s2"
  from lt have "pos s1 < length content" by simp
  from pos_iteration[OF this it] pos_skipWhitespace_ge[of s content l] s1
  have "pos s < pos s2" by simp
  with \<open>pos s < length content\<close>
  show "((content, l, s2), (content, l, s)) \<in> measure (\<lambda>(content, l, s). length content - pos s)"
    by simp
qed

declare parse_loop.simps [simp del]

definition initial :: "jsstring \<Rightarrow> pstate" where
  "initial content =
     \<lparr>pos = (if length content > 0 \<and> charCodeAt content 0 = Some BOM then 1 else 0),
      line = 1, char = 0, state = ROOT_STATE, cur = VNull,
      stateStack = [], objStack = [], curKey = None, heap = []\<rparr>"

text \<open>
  \<open>run\<close> is \<open>parse\<close> up to its \<open>return\<close>. \<open>parse\<close> returns \<open>cur\<close>; a reference means
  something only with the store, so the result is the pair.
\<close>

definition run :: "jsstring \<Rightarrow> jsstring option \<Rightarrow> error + pstate" where
  "run content locationKeyName = parse_loop content locationKeyName (initial content)"

definition parse :: "jsstring \<Rightarrow> jsstring option \<Rightarrow> error + (jsval \<times> jsobj list)" where
  "parse content locationKeyName =
     (case run content locationKeyName of
        Inl e \<Rightarrow> Inl e
      | Inr s \<Rightarrow> Inr (cur s, heap s))"

subsection \<open>The tree a result denotes\<close>

text \<open>
  \<open>ParseValue\<close> is what a caller sees when it walks the result: each reference replaced
  by the own properties or the elements of the object it refers to. \<open>reify n\<close> follows
  references to depth \<open>n\<close>.
\<close>

datatype ParseValue =
    PNull
  | PUndefined
  | PString jsstring
  | PNumber jsnumber
  | PBool bool
  | PDate jsstring
  | PDict "(jsstring \<times> ParseValue) list"
  | PArray "ParseValue list"

fun reify :: "nat \<Rightarrow> jsobj list \<Rightarrow> jsval \<Rightarrow> ParseValue option" where
  "reify n h VNull = Some PNull"
| "reify n h VUndefined = Some PUndefined"
| "reify n h (VString x) = Some (PString x)"
| "reify n h (VNumber x) = Some (PNumber x)"
| "reify n h (VBool x) = Some (PBool x)"
| "reify n h (VDate x) = Some (PDate x)"
| "reify 0 h (VRef a) = None"
| "reify (Suc n) h (VRef a) =
     (if a < length h then
        (case h ! a of
           OArr xs \<Rightarrow> map_option PArray (those (map (reify n h) xs))
         | ODict props proto \<Rightarrow>
             map_option PDict
               (those (map (\<lambda>(k, v). map_option (Pair k) (reify n h v)) props)))
      else None)"

definition parseTree :: "jsstring \<Rightarrow> jsstring option \<Rightarrow> error + ParseValue option" where
  "parseTree content locationKeyName =
     (case parse content locationKeyName of
        Inl e \<Rightarrow> Inl e
      | Inr (v, h) \<Rightarrow> Inr (reify (length h) h v))"

section \<open>Scanning up to a delimiter\<close>

text \<open>
  What the specification says of \<open>advanceUntil\<close> and \<open>captureUntil\<close>, in its own terms:
  the delimiter occurs at \<open>k\<close> when the text there begins with it, and \<open>k\<close> is the first
  occurrence from \<open>p\<close> when it is the least such index that is not before \<open>p\<close>.
\<close>

definition occursAt :: "jsstring \<Rightarrow> jsstring \<Rightarrow> nat \<Rightarrow> bool" where
  "occursAt content d k \<longleftrightarrow>
     k + length d \<le> length content \<and> take (length d) (drop k content) = d"

definition firstOccurrenceFrom :: "jsstring \<Rightarrow> jsstring \<Rightarrow> nat \<Rightarrow> nat \<Rightarrow> bool" where
  "firstOccurrenceFrom content d p k \<longleftrightarrow>
     p \<le> k \<and> occursAt content d k \<and> (\<forall>j \<in> {p..<k}. \<not> occursAt content d j)"

definition noOccurrenceFrom :: "jsstring \<Rightarrow> jsstring \<Rightarrow> nat \<Rightarrow> bool" where
  "noOccurrenceFrom content d p \<longleftrightarrow> (\<forall>j \<in> {p..length content}. \<not> occursAt content d j)"

lemma occursAt_prefix: "occursAt content d k \<longleftrightarrow> k \<le> length content \<and> prefix d (drop k content)"
proof
  assume a: "occursAt content d k"
  then have "take (length d) (drop k content) = d" "k \<le> length content"
    by (simp_all add: occursAt_def)
  then show "k \<le> length content \<and> prefix d (drop k content)"
    by (metis take_is_prefix)
next
  assume a: "k \<le> length content \<and> prefix d (drop k content)"
  then obtain zs where z: "drop k content = d @ zs" by (auto simp: prefix_def)
  then have "length (drop k content) = length d + length zs" by simp
  then have "length content - k = length d + length zs" by simp
  with a have "k + length d \<le> length content" by linarith
  with z show "occursAt content d k" by (simp add: occursAt_def)
qed

lemma first_occurrence_Some:
  "first_occurrence d xs = Some k \<longleftrightarrow>
     k \<le> length xs \<and> prefix d (drop k xs) \<and> (\<forall>j<k. \<not> prefix d (drop j xs))"
proof (induction xs arbitrary: k)
  case Nil
  then show ?case by auto
next
  case (Cons x xs)
  show ?case
  proof (cases "prefix d (x # xs)")
    case True
    then show ?thesis by (cases k) auto
  next
    case False
    show ?thesis
    proof (cases k)
      case 0
      with False show ?thesis by simp
    next
      case (Suc k')
      have "(\<forall>j<Suc k'. \<not> prefix d (drop j (x # xs))) \<longleftrightarrow> (\<forall>j<k'. \<not> prefix d (drop j xs))"
        using False by (auto simp: less_Suc_eq_0_disj)
      with False Suc Cons.IH[of k'] show ?thesis by auto
    qed
  qed
qed

lemma all_le_Suc_split: "(\<forall>j\<le>Suc n. Q j) \<longleftrightarrow> Q 0 \<and> (\<forall>j\<le>n. Q (Suc j))"
proof
  assume "\<forall>j\<le>Suc n. Q j"
  then show "Q 0 \<and> (\<forall>j\<le>n. Q (Suc j))" by simp
next
  assume a: "Q 0 \<and> (\<forall>j\<le>n. Q (Suc j))"
  show "\<forall>j\<le>Suc n. Q j"
  proof (intro allI impI)
    fix j assume "j \<le> Suc n"
    with a show "Q j" by (cases j) simp_all
  qed
qed

lemma first_occurrence_None:
  "first_occurrence d xs = None \<longleftrightarrow> (\<forall>j\<le>length xs. \<not> prefix d (drop j xs))"
proof (induction xs)
  case Nil
  then show ?case by auto
next
  case (Cons x xs)
  have "(\<forall>j\<le>length (x # xs). \<not> prefix d (drop j (x # xs)))
        \<longleftrightarrow> \<not> prefix d (x # xs) \<and> (\<forall>j\<le>length xs. \<not> prefix d (drop j xs))"
    using all_le_Suc_split[of "length xs" "\<lambda>j. \<not> prefix d (drop j (x # xs))"] by simp
  with Cons show ?case by auto
qed

lemma indexOf_Some:
  assumes "p \<le> length content"
  shows "indexOf content d p = Some k \<longleftrightarrow> firstOccurrenceFrom content d p k"
proof -
  have m: "min p (length content) = p" using assms by simp
  have "indexOf content d p = Some k \<longleftrightarrow> p \<le> k \<and> first_occurrence d (drop p content) = Some (k - p)"
    by (auto simp: indexOf_def m)
  also have "\<dots> \<longleftrightarrow> p \<le> k \<and> k - p \<le> length content - p \<and> prefix d (drop k content)
       \<and> (\<forall>j<k - p. \<not> prefix d (drop (p + j) content))"
    by (auto simp: first_occurrence_Some add.commute)
  also have "\<dots> \<longleftrightarrow> firstOccurrenceFrom content d p k"
  proof -
    have "(\<forall>j<k - p. \<not> prefix d (drop (p + j) content)) \<longleftrightarrow> (\<forall>j\<in>{p..<k}. \<not> prefix d (drop j content))"
    proof
      assume a: "\<forall>j<k - p. \<not> prefix d (drop (p + j) content)"
      show "\<forall>j\<in>{p..<k}. \<not> prefix d (drop j content)"
      proof
        fix j assume "j \<in> {p..<k}"
        then have "j - p < k - p" "p + (j - p) = j" by auto
        with a show "\<not> prefix d (drop j content)" by metis
      qed
    next
      assume "\<forall>j\<in>{p..<k}. \<not> prefix d (drop j content)"
      then show "\<forall>j<k - p. \<not> prefix d (drop (p + j) content)" by auto
    qed
    moreover have "j \<in> {p..<k} \<Longrightarrow> k \<le> length content \<Longrightarrow> j \<le> length content" for j by auto
    ultimately show ?thesis
      using assms by (auto simp: firstOccurrenceFrom_def occursAt_prefix)
  qed
  finally show ?thesis .
qed

lemma indexOf_None:
  assumes "p \<le> length content"
  shows "indexOf content d p = None \<longleftrightarrow> noOccurrenceFrom content d p"
proof -
  have m: "min p (length content) = p" using assms by simp
  have "indexOf content d p = None \<longleftrightarrow> (\<forall>j\<le>length content - p. \<not> prefix d (drop (p + j) content))"
    by (simp add: indexOf_def m first_occurrence_None add.commute)
  also have "\<dots> \<longleftrightarrow> (\<forall>j\<in>{p..length content}. \<not> prefix d (drop j content))"
  proof
    assume a: "\<forall>j\<le>length content - p. \<not> prefix d (drop (p + j) content)"
    show "\<forall>j\<in>{p..length content}. \<not> prefix d (drop j content)"
    proof
      fix j assume "j \<in> {p..length content}"
      then have "j - p \<le> length content - p" "p + (j - p) = j" by auto
      with a show "\<not> prefix d (drop j content)" by metis
    qed
  next
    assume "\<forall>j\<in>{p..length content}. \<not> prefix d (drop j content)"
    with assms show "\<forall>j\<le>length content - p. \<not> prefix d (drop (p + j) content)" by auto
  qed
  finally show ?thesis by (auto simp: noOccurrenceFrom_def occursAt_prefix)
qed


lemma first_or_none:
  assumes "p \<le> length content"
  shows "(\<exists>k. firstOccurrenceFrom content d p k) \<or> noOccurrenceFrom content d p"
proof (cases "indexOf content d p")
  case None
  with indexOf_None[OF assms, of d] show ?thesis by simp
next
  case (Some k)
  with indexOf_Some[OF assms, of d k] show ?thesis by auto
qed

lemma sublist_occurs:
  assumes "sublist d (take n (drop p content))" and "p \<le> length content"
  shows "\<exists>j. p \<le> j \<and> j + length d \<le> p + n \<and> occursAt content d j"
proof -
  from assms obtain ps ss where e: "take n (drop p content) = ps @ d @ ss"
    by (auto simp: sublist_def)
  then have len: "length ps + length d + length ss = min (length content - p) n"
    by (metis length_append length_take length_drop add.assoc)
  have "drop p content = (ps @ d @ ss) @ drop n (drop p content)"
    using e by (metis append_take_drop_id)
  then have "drop (length ps) (drop p content)
      = drop (length ps) ((ps @ d @ ss) @ drop n (drop p content))"
    by (rule arg_cong)
  then have "drop (length ps) (drop p content) = d @ ss @ drop n (drop p content)"
    by simp
  then have "drop (p + length ps) content = d @ ss @ drop n (drop p content)"
    by (simp add: add.commute)
  then have "prefix d (drop (p + length ps) content)" by simp
  moreover from len assms(2)
  have "p + length ps \<le> length content" "p + length ps + length d \<le> p + n"
    by linarith+
  ultimately show ?thesis
    by (intro exI[of _ "p + length ps"]) (simp add: occursAt_prefix)
qed

text \<open>
  Claim C7. For every input text, position within it and delimiter: \<open>advanceUntil\<close> moves
  the position to just past the first occurrence of the delimiter at or after the
  position, or to the end of input when there is none; \<open>captureUntil\<close> moves the position
  in the same way and returns the text from the starting position up to the delimiter
  (the rest of the input when there is none). The returned text never includes the
  delimiter. One of the two cases always applies. This holds with and without location
  tracking.
\<close>

theorem scanUntil_spec:
  assumes "pos s \<le> length content"
  shows "((\<exists>k. firstOccurrenceFrom content d (pos s) k) \<or> noOccurrenceFrom content d (pos s))
    \<and> (\<forall>k. firstOccurrenceFrom content d (pos s) k \<longrightarrow>
          pos (advanceUntil content l d s) = k + length d
          \<and> captureUntil content l d s
              = (take (k - pos s) (drop (pos s) content), advanceUntil content l d s))
    \<and> (noOccurrenceFrom content d (pos s) \<longrightarrow>
          pos (advanceUntil content l d s) = length content
          \<and> captureUntil content l d s = (drop (pos s) content, advanceUntil content l d s))
    \<and> (d \<noteq> [] \<longrightarrow> \<not> sublist d (fst (captureUntil content l d s)))"
proof (intro conjI allI impI)
  show "(\<exists>k. firstOccurrenceFrom content d (pos s) k) \<or> noOccurrenceFrom content d (pos s)"
    by (rule first_or_none[OF assms])
next
  fix k assume f: "firstOccurrenceFrom content d (pos s) k"
  then have i: "indexOf content d (pos s) = Some k" by (simp add: indexOf_Some[OF assms])
  from f have le: "pos s \<le> k" by (simp add: firstOccurrenceFrom_def)
  then show "pos (advanceUntil content l d s) = k + length d"
    by (simp add: advanceUntil_def i pos_advancePosTo)
  from le show "captureUntil content l d s
      = (take (k - pos s) (drop (pos s) content), advanceUntil content l d s)"
    by (simp add: captureUntil_def advanceUntil_def i substring_def min_def max_def)
next
  assume n: "noOccurrenceFrom content d (pos s)"
  then have i: "indexOf content d (pos s) = None" by (simp add: indexOf_None[OF assms])
  from assms show "pos (advanceUntil content l d s) = length content"
    by (simp add: advanceUntil_def i pos_advancePosTo)
  show "captureUntil content l d s = (drop (pos s) content, advanceUntil content l d s)"
    by (simp add: captureUntil_def advanceUntil_def i substr_from_def)
next
  assume ne: "d \<noteq> []"
  show "\<not> sublist d (fst (captureUntil content l d s))"
  proof (cases "indexOf content d (pos s)")
    case None
    then have n: "noOccurrenceFrom content d (pos s)" by (simp add: indexOf_None[OF assms])
    have c: "fst (captureUntil content l d s) = take (length content) (drop (pos s) content)"
      by (simp add: captureUntil_def None substr_from_def)
    show ?thesis
    proof
      assume "sublist d (fst (captureUntil content l d s))"
      with c sublist_occurs[of d "length content" "pos s" content] assms
      obtain j where j: "pos s \<le> j" "occursAt content d j" by auto
      then have "j \<le> length content" by (simp add: occursAt_def)
      with j n show False by (auto simp: noOccurrenceFrom_def)
    qed
  next
    case (Some k)
    then have f: "firstOccurrenceFrom content d (pos s) k" by (simp add: indexOf_Some[OF assms])
    then have le: "pos s \<le> k" by (simp add: firstOccurrenceFrom_def)
    then have c: "fst (captureUntil content l d s) = take (k - pos s) (drop (pos s) content)"
      by (simp add: captureUntil_def Some substring_def min_def max_def)
    show ?thesis
    proof
      assume "sublist d (fst (captureUntil content l d s))"
      with c sublist_occurs[of d "k - pos s" "pos s" content] assms
      obtain j where j: "pos s \<le> j" "j + length d \<le> pos s + (k - pos s)" "occursAt content d j"
        by auto
      with le ne have "j < k" by (cases d) auto
      with j f show False by (auto simp: firstOccurrenceFrom_def)
    qed
  qed
qed

theorem scanUntil_spec_witness:
  "firstOccurrenceFrom (str ''ab</cd'') (str ''</'') 1 2
   \<and> pos (advanceUntil (str ''ab</cd'') (Some []) (str ''</'') ((initial (str ''ab</cd''))\<lparr>pos := 1\<rparr>)) = 4
   \<and> fst (captureUntil (str ''ab</cd'') (Some []) (str ''</'') ((initial (str ''ab</cd''))\<lparr>pos := 1\<rparr>)) = str ''b''
   \<and> noOccurrenceFrom (str ''ab</cd'') (str ''?>'') 1
   \<and> pos (advanceUntil (str ''ab</cd'') (Some []) (str ''?>'') ((initial (str ''ab</cd''))\<lparr>pos := 1\<rparr>)) = 6
   \<and> fst (captureUntil (str ''ab</cd'') (Some []) (str ''?>'') ((initial (str ''ab</cd''))\<lparr>pos := 1\<rparr>)) = str ''b</cd''"
proof -
  let ?c = "str ''ab</cd''"
  let ?s = "(initial ?c)\<lparr>pos := 1\<rparr>"
  have le: "pos ?s \<le> length ?c" by (simp add: str_def)
  have p: "pos ?s = 1" by simp
  have l1: "1 \<le> length ?c" by (simp add: str_def)
  have f: "firstOccurrenceFrom ?c (str ''</'') 1 2"
    unfolding indexOf_Some[OF l1, symmetric] by (simp add: indexOf_def str_def)
  have n: "noOccurrenceFrom ?c (str ''?>'') 1"
    unfolding indexOf_None[OF l1, symmetric] by (simp add: indexOf_def str_def)
  from scanUntil_spec[OF le, of "str ''</''" "Some []"] f
  have a: "pos (advanceUntil ?c (Some []) (str ''</'') ?s) = 2 + length (str ''</'')"
    "fst (captureUntil ?c (Some []) (str ''</'') ?s) = take (2 - 1) (drop 1 ?c)"
    unfolding p by simp_all
  from scanUntil_spec[OF le, of "str ''?>''" "Some []"] n
  have b: "pos (advanceUntil ?c (Some []) (str ''?>'') ?s) = length ?c"
    "fst (captureUntil ?c (Some []) (str ''?>'') ?s) = drop 1 ?c"
    unfolding p by simp_all
  from a b f n show ?thesis by (simp add: str_def)
qed

section \<open>Location tracking\<close>

text \<open>
  \<open>noLoc\<close> forgets the line and the column. Every operation of the parser commutes with
  it: run with any \<open>locationKeyName\<close> and then forgetting the location is running without
  tracking from the state that forgot it. The scanner needs the position to lie within
  the text for that, which the loop maintains.
\<close>

definition noLoc :: "pstate \<Rightarrow> pstate" where
  "noLoc s = s\<lparr>line := 1, char := 0\<rparr>"

lemma noLoc_sel [simp]:
  "pos (noLoc s) = pos s" "state (noLoc s) = state s" "cur (noLoc s) = cur s"
  "stateStack (noLoc s) = stateStack s" "objStack (noLoc s) = objStack s"
  "curKey (noLoc s) = curKey s" "heap (noLoc s) = heap s"
  by (simp_all add: noLoc_def)

lemma noLoc_idem [simp]: "noLoc (noLoc s) = noLoc s"
  by (simp add: noLoc_def)

lemma noLoc_update [simp]:
  "noLoc (s\<lparr>pos := p\<rparr>) = (noLoc s)\<lparr>pos := p\<rparr>"
  "noLoc (s\<lparr>state := st\<rparr>) = (noLoc s)\<lparr>state := st\<rparr>"
  "noLoc (s\<lparr>cur := v\<rparr>) = (noLoc s)\<lparr>cur := v\<rparr>"
  "noLoc (s\<lparr>stateStack := ss\<rparr>) = (noLoc s)\<lparr>stateStack := ss\<rparr>"
  "noLoc (s\<lparr>objStack := os\<rparr>) = (noLoc s)\<lparr>objStack := os\<rparr>"
  "noLoc (s\<lparr>curKey := k\<rparr>) = (noLoc s)\<lparr>curKey := k\<rparr>"
  "noLoc (s\<lparr>heap := h\<rparr>) = (noLoc s)\<lparr>heap := h\<rparr>"
  "noLoc (s\<lparr>line := n\<rparr>) = noLoc s"
  "noLoc (s\<lparr>char := n\<rparr>) = noLoc s"
  by (cases s, simp add: noLoc_def)+

lemma noLoc_advancePosBy_loop:
  "noLoc (advancePosBy_loop content n s) = (noLoc s)\<lparr>pos := pos s + n\<rparr>"
  by (induction n arbitrary: s) simp_all

lemma noLoc_advancePosBy:
  "noLoc (advancePosBy content l n s) = advancePosBy content None n (noLoc s)"
  by (simp add: advancePosBy_def noLoc_advancePosBy_loop)

lemma noLoc_advancePosTo:
  "pos s \<le> to \<Longrightarrow> noLoc (advancePosTo content l to s) = advancePosTo content None to (noLoc s)"
  by (auto simp: advancePosTo_def noLoc_advancePosBy) (simp_all add: advancePosBy_def)

lemma noLoc_skipWhitespace:
  "noLoc (skipWhitespace content l s) = skipWhitespace content None (noLoc s)"
proof (induction content l s rule: skipWhitespace.induct)
  case (1 content l s)
  show ?case
  proof (cases "pos s < length content \<and> isSkippedWhitespace (content ! pos s)")
    case True
    then have "skipWhitespace content l s = skipWhitespace content l (advancePosBy content l 1 s)"
      by (subst skipWhitespace.simps) simp
    moreover from True
    have "skipWhitespace content None (noLoc s)
        = skipWhitespace content None (advancePosBy content None 1 (noLoc s))"
      by (subst skipWhitespace.simps) simp
    ultimately show ?thesis using 1 True by (simp add: noLoc_advancePosBy)
  next
    case False
    then have "skipWhitespace content l s = s" "skipWhitespace content None (noLoc s) = noLoc s"
      by (subst skipWhitespace.simps, auto)+
    then show ?thesis by simp
  qed
qed

lemma noLoc_advanceIfStartsWith:
  "map_prod id noLoc (advanceIfStartsWith content l d s)
     = advanceIfStartsWith content None d (noLoc s)"
  by (simp add: advanceIfStartsWith_def noLoc_advancePosBy)

lemma noLoc_advanceUntil:
  assumes "pos s \<le> length content"
  shows "noLoc (advanceUntil content l d s) = advanceUntil content None d (noLoc s)"
proof (cases "indexOf content d (pos s)")
  case None
  with assms show ?thesis by (simp add: advanceUntil_def noLoc_advancePosTo)
next
  case (Some k)
  from indexOf_bounds[OF Some] assms have "pos s \<le> k + length d" by auto
  with Some show ?thesis by (simp add: advanceUntil_def noLoc_advancePosTo)
qed

lemma noLoc_captureUntil:
  assumes "pos s \<le> length content"
  shows "map_prod id noLoc (captureUntil content l d s) = captureUntil content None d (noLoc s)"
proof (cases "indexOf content d (pos s)")
  case None
  with assms show ?thesis by (simp add: captureUntil_def noLoc_advancePosTo)
next
  case (Some k)
  from indexOf_bounds[OF Some] assms have "pos s \<le> k + length d" by auto
  with Some show ?thesis by (simp add: captureUntil_def noLoc_advancePosTo)
qed


lemma fail_noLoc [simp]: "fail content (noLoc s) msg = fail content s msg"
  by (simp add: fail_def)

lemma noLoc_pushState: "noLoc (pushState st v s) = pushState st v (noLoc s)"
  by (simp add: pushState_def)

lemma noLoc_popState: "noLoc (popState s) = popState (noLoc s)"
  by (simp add: popState_def)

lemma map_sum_bindE:
  "map_sum id g (bindE m f) = bindE m (\<lambda>x. map_sum id g (f x))"
  by (cases m) (simp_all add: bindE_def)

lemma noLoc_dictState_enter:
  "map_sum id noLoc (dictState_enter content ob st s) = dictState_enter content ob st (noLoc s)"
  by (cases "curKey s")
     (simp_all add: dictState_enter_def Let_def map_sum_bindE noLoc_pushState)

lemma noLoc_arrState_enter:
  "map_sum id noLoc (arrState_enter ob st s) = arrState_enter ob st (noLoc s)"
  by (simp add: arrState_enter_def Let_def map_sum_bindE noLoc_pushState)

lemma noLoc_enterDict:
  "map_sum id noLoc (enterDict content s) = enterDict content (noLoc s)"
  by (simp add: enterDict_def Let_def noLoc_dictState_enter noLoc_arrState_enter noLoc_pushState)

lemma noLoc_enterArray:
  "map_sum id noLoc (enterArray content s) = enterArray content (noLoc s)"
  by (simp add: enterArray_def Let_def noLoc_dictState_enter noLoc_arrState_enter noLoc_pushState)

lemma noLoc_leaveDict:
  "map_sum id noLoc (leaveDict content s) = leaveDict content (noLoc s)"
  by (simp add: leaveDict_def noLoc_popState)

lemma noLoc_leaveArray:
  "map_sum id noLoc (leaveArray content s) = leaveArray content (noLoc s)"
  by (simp add: leaveArray_def noLoc_popState)

lemma noLoc_acceptKey:
  "map_sum id noLoc (acceptKey content v s) = acceptKey content v (noLoc s)"
  by (simp add: acceptKey_def)

lemma noLoc_assignCurrent:
  "map_sum id noLoc (assignCurrent content v s) = assignCurrent content v (noLoc s)"
  by (cases "curKey s") (simp_all add: assignCurrent_def map_sum_bindE)

lemmas noLoc_accept =
  noLoc_acceptKey noLoc_assignCurrent

lemma noLoc_parseOpenTag:
  assumes "pos s \<le> length content"
  shows "map_prod id noLoc (parseOpenTag content l s) = parseOpenTag content None (noLoc s)"
proof -
  obtain r s1 where c: "captureUntil content l (str ''>'') s = (r, s1)"
    by (cases "captureUntil content l (str ''>'') s")
  with noLoc_captureUntil[OF assms, of l "str ''>''"]
  have "captureUntil content None (str ''>'') (noLoc s) = (r, noLoc s1)" by simp
  with c show ?thesis by (simp add: parseOpenTag_def Let_def)
qed

lemma noLoc_parseTagValue:
  assumes "pos s \<le> length content"
  shows "map_sum id (map_prod id noLoc) (parseTagValue content l tag s)
       = parseTagValue content None tag (noLoc s)"
proof (cases "isClosed tag")
  case True
  then show ?thesis by (simp add: parseTagValue_def)
next
  case False
  obtain r s1 where c: "captureUntil content l (str ''</'') s = (r, s1)"
    by (cases "captureUntil content l (str ''</'') s")
  with noLoc_captureUntil[OF assms, of l "str ''</''"]
  have c': "captureUntil content None (str ''</'') (noLoc s) = (r, noLoc s1)" by simp
  from pos_captureUntil[OF assms, of l "str ''</''"] c have "pos s1 \<le> length content" by simp
  from noLoc_advanceUntil[OF this, of l "str ''>''"] c c' False
  show ?thesis by (simp add: parseTagValue_def Let_def map_sum_bindE)
qed


lemma noLoc_closingTag:
  assumes "pos s < length content"
  shows "map_sum id noLoc (closingTag content l s) = closingTag content None (noLoc s)"
proof -
  define s1 where "s1 = skipWhitespace content l (advancePosBy content l 1 s)"
  have n1: "skipWhitespace content None (advancePosBy content None 1 (noLoc s)) = noLoc s1"
    by (simp add: s1_def noLoc_skipWhitespace noLoc_advancePosBy)
  obtain b2 s2 where a2: "advanceIfStartsWith content l (str ''plist'') s1 = (b2, s2)"
    by (cases "advanceIfStartsWith content l (str ''plist'') s1")
  obtain b3 s3 where a3: "advanceIfStartsWith content l (str ''dict'') s2 = (b3, s3)"
    by (cases "advanceIfStartsWith content l (str ''dict'') s2")
  obtain b4 s4 where a4: "advanceIfStartsWith content l (str ''array'') s3 = (b4, s4)"
    by (cases "advanceIfStartsWith content l (str ''array'') s3")
  from noLoc_advanceIfStartsWith[of content l "str ''plist''" s1] a2
  have n2: "advanceIfStartsWith content None (str ''plist'') (noLoc s1) = (b2, noLoc s2)" by simp
  from noLoc_advanceIfStartsWith[of content l "str ''dict''" s2] a3
  have n3: "advanceIfStartsWith content None (str ''dict'') (noLoc s2) = (b3, noLoc s3)" by simp
  from noLoc_advanceIfStartsWith[of content l "str ''array''" s3] a4
  have n4: "advanceIfStartsWith content None (str ''array'') (noLoc s3) = (b4, noLoc s4)" by simp
  from assms have s1: "pos s1 \<le> length content"
    using pos_skipWhitespace_le[of "advancePosBy content l 1 s" content l]
    by (simp add: s1_def pos_advancePosBy)
  from pos_advanceIfStartsWith[OF s1, of l "str ''plist''"] a2
  have s2: "pos s2 \<le> length content" by simp
  from pos_advanceIfStartsWith[OF s2, of l "str ''dict''"] a3
  have s3: "pos s3 \<le> length content" by simp
  from pos_advanceIfStartsWith[OF s3, of l "str ''array''"] a4
  have s4: "pos s4 \<le> length content" by simp
  have l: "closingTag content l s =
      (if b2 then Inr (advanceUntil content l (str ''>'') s2)
       else if b3 then leaveDict content (advanceUntil content l (str ''>'') s3)
       else if b4 then leaveArray content (advanceUntil content l (str ''>'') s4)
       else Inl (fail content s4 (str ''unexpected closed tag'')))"
    unfolding closingTag_def Let_def s1_def[symmetric] by (simp add: a2 a3 a4)
  have r: "closingTag content None (noLoc s) =
      (if b2 then Inr (advanceUntil content None (str ''>'') (noLoc s2))
       else if b3 then leaveDict content (advanceUntil content None (str ''>'') (noLoc s3))
       else if b4 then leaveArray content (advanceUntil content None (str ''>'') (noLoc s4))
       else Inl (fail content s4 (str ''unexpected closed tag'')))"
    unfolding closingTag_def Let_def n1 by (simp add: n2 n3 n4)
  show ?thesis
    unfolding l r
    by (simp add: noLoc_advanceUntil[OF s2] noLoc_advanceUntil[OF s3] noLoc_advanceUntil[OF s4]
          noLoc_leaveDict noLoc_leaveArray)
qed

lemma noLoc_leaf:
  assumes "pos s \<le> length content"
    and "\<And>v s1. map_sum id noLoc (f v s1) = f v (noLoc s1)"
  shows "map_sum id noLoc (bindE (parseTagValue content l tag s) (\<lambda>(v, s1). f v s1))
       = bindE (parseTagValue content None tag (noLoc s)) (\<lambda>(v, s1). f v s1)"
proof (cases "parseTagValue content l tag s")
  case (Inl e)
  with noLoc_parseTagValue[OF assms(1), of l tag]
  have "parseTagValue content None tag (noLoc s) = Inl e" by simp
  with Inl show ?thesis by (simp add: bindE_def)
next
  case (Inr p)
  obtain v s1 where p: "p = (v, s1)" by (cases p)
  with Inr noLoc_parseTagValue[OF assms(1), of l tag]
  have "parseTagValue content None tag (noLoc s) = Inr (v, noLoc s1)" by simp
  with Inr p assms(2) show ?thesis by (simp add: bindE_def)
qed

lemma noLoc_dispatchTag:
  assumes "pos s \<le> length content"
  shows "map_sum id noLoc (dispatchTag content l tag s) = dispatchTag content None tag (noLoc s)"
proof -
  note leaf = noLoc_leaf[OF assms, of _ l tag]
  have d: "map_sum id noLoc (bindE (enterDict content s)
             (\<lambda>s1. if isClosed tag then leaveDict content s1 else Inr s1))
         = bindE (enterDict content (noLoc s))
             (\<lambda>s1. if isClosed tag then leaveDict content s1 else Inr s1)"
    using noLoc_enterDict[of content s, symmetric]
    by (cases "enterDict content s") (auto simp: bindE_def noLoc_leaveDict)
  have a: "map_sum id noLoc (bindE (enterArray content s)
             (\<lambda>s1. if isClosed tag then leaveArray content s1 else Inr s1))
         = bindE (enterArray content (noLoc s))
             (\<lambda>s1. if isClosed tag then leaveArray content s1 else Inr s1)"
    using noLoc_enterArray[of content s, symmetric]
    by (cases "enterArray content s") (auto simp: bindE_def noLoc_leaveArray)
  have k: "map_sum id noLoc (bindE (parseTagValue content l tag s) (\<lambda>(v, s1). acceptKey content v s1))
    = bindE (parseTagValue content None tag (noLoc s)) (\<lambda>(v, s1). acceptKey content v s1)"
    by (rule leaf) (rule noLoc_acceptKey)
  have st: "map_sum id noLoc (bindE (parseTagValue content l tag s) (\<lambda>(v, s1). acceptString content v s1))
    = bindE (parseTagValue content None tag (noLoc s)) (\<lambda>(v, s1). acceptString content v s1)"
    by (rule leaf) (simp add: acceptString_def noLoc_assignCurrent)
  have re: "map_sum id noLoc (bindE (parseTagValue content l tag s)
        (\<lambda>(v, s1). acceptReal content (parseFloat v) s1))
    = bindE (parseTagValue content None tag (noLoc s))
        (\<lambda>(v, s1). acceptReal content (parseFloat v) s1)"
    by (rule leaf) (simp add: acceptReal_def noLoc_assignCurrent split: option.splits)
  have i: "map_sum id noLoc (bindE (parseTagValue content l tag s)
        (\<lambda>(v, s1). acceptInteger content (parseInt v 10) s1))
    = bindE (parseTagValue content None tag (noLoc s))
        (\<lambda>(v, s1). acceptInteger content (parseInt v 10) s1)"
    by (rule leaf) (simp add: acceptInteger_def noLoc_assignCurrent split: option.splits)
  have da: "map_sum id noLoc (bindE (parseTagValue content l tag s)
        (\<lambda>(v, s1). acceptDate content (VDate v) s1))
    = bindE (parseTagValue content None tag (noLoc s))
        (\<lambda>(v, s1). acceptDate content (VDate v) s1)"
    by (rule leaf) (simp add: acceptDate_def noLoc_assignCurrent)
  have dt: "map_sum id noLoc (bindE (parseTagValue content l tag s) (\<lambda>(v, s1). acceptData content v s1))
    = bindE (parseTagValue content None tag (noLoc s)) (\<lambda>(v, s1). acceptData content v s1)"
    by (rule leaf) (simp add: acceptData_def noLoc_assignCurrent)
  have b: "map_sum id noLoc (bindE (parseTagValue content l tag s) (\<lambda>(v, s1). acceptBool content x s1))
    = bindE (parseTagValue content None tag (noLoc s)) (\<lambda>(v, s1). acceptBool content x s1)" for x
    by (rule leaf) (simp add: acceptBool_def noLoc_assignCurrent)
  show ?thesis
    unfolding dispatchTag_def
    by (simp only: if_distrib[of "map_sum id noLoc"] d a k st re i da dt b
          map_sum.simps id_apply fail_noLoc cong: if_cong)
qed


lemma noLoc_iteration:
  assumes "pos s < length content"
  shows "map_sum id noLoc (iteration content l s) = iteration content None (noLoc s)"
proof -
  define s1 where "s1 = advancePosBy content l 1 s"
  have n1: "advancePosBy content None 1 (noLoc s) = noLoc s1"
    by (simp add: s1_def noLoc_advancePosBy)
  have p1: "pos s1 = pos s + 1" by (simp add: s1_def pos_advancePosBy)
  show ?thesis
  proof (cases "charCodeAt content (pos s) = Some LESS_THAN \<and> pos s1 < length content")
    case False
    then show ?thesis
      unfolding iteration_def Let_def n1 s1_def[symmetric] by auto
  next
    case True
    then have lt: "pos s1 < length content" by simp
    define s2 where "s2 = advancePosBy content l 1 s1"
    have n2: "advancePosBy content None 1 (noLoc s1) = noLoc s2"
      by (simp add: s2_def noLoc_advancePosBy)
    have s2le: "pos s2 \<le> length content" using lt by (simp add: s2_def pos_advancePosBy)
    obtain b3 s3 where a3: "advanceIfStartsWith content l (str ''--'') s2 = (b3, s3)"
      by (cases "advanceIfStartsWith content l (str ''--'') s2")
    from noLoc_advanceIfStartsWith[of content l "str ''--''" s2] a3
    have n3: "advanceIfStartsWith content None (str ''--'') (noLoc s2) = (b3, noLoc s3)" by simp
    from pos_advanceIfStartsWith[OF s2le, of l "str ''--''"] a3
    have s3le: "pos s3 \<le> length content" by simp
    obtain tag s4 where a4: "parseOpenTag content l s1 = (tag, s4)"
      by (cases "parseOpenTag content l s1")
    from noLoc_parseOpenTag[of s1 content l] lt a4
    have n4: "parseOpenTag content None (noLoc s1) = (tag, noLoc s4)" by simp
    from pos_parseOpenTag[of s1 content l] lt a4 have s4le: "pos s4 \<le> length content" by simp
    have l: "iteration content l s =
      (if charCodeAt content (pos s1) = Some QUESTION_MARK
         then Inr (advanceUntil content l (str ''?>'') s2)
       else if charCodeAt content (pos s1) = Some EXCLAMATION_MARK
         then (if b3 then Inr (advanceUntil content l (str ''-->'') s3)
               else Inr (advanceUntil content l (str ''>'') s3))
       else if charCodeAt content (pos s1) = Some SLASH then closingTag content l s1
       else dispatchTag content l tag s4)"
      using True
      unfolding iteration_def Let_def s1_def[symmetric] s2_def[symmetric]
      by (simp add: a3 a4)
    have r: "iteration content None (noLoc s) =
      (if charCodeAt content (pos s1) = Some QUESTION_MARK
         then Inr (advanceUntil content None (str ''?>'') (noLoc s2))
       else if charCodeAt content (pos s1) = Some EXCLAMATION_MARK
         then (if b3 then Inr (advanceUntil content None (str ''-->'') (noLoc s3))
               else Inr (advanceUntil content None (str ''>'') (noLoc s3)))
       else if charCodeAt content (pos s1) = Some SLASH then closingTag content None (noLoc s1)
       else dispatchTag content None tag (noLoc s4))"
      using True
      unfolding iteration_def Let_def n1 n2
      by (simp add: n3 n4)
    show ?thesis
      unfolding l r
      by (simp add: noLoc_advanceUntil[OF s2le] noLoc_advanceUntil[OF s3le]
            noLoc_closingTag[OF lt] noLoc_dispatchTag[OF s4le])
  qed
qed

lemma noLoc_parse_loop:
  "map_sum id noLoc (parse_loop content l s) = parse_loop content None (noLoc s)"
proof (induction content l s rule: parse_loop.induct)
  case (1 content l s)
  show ?case
  proof (cases "pos s < length content")
    case False
    then show ?thesis by (simp add: parse_loop.simps[of content _ s] parse_loop.simps[of content _ "noLoc s"])
  next
    case True
    define s1 where "s1 = skipWhitespace content l s"
    have n1: "skipWhitespace content None (noLoc s) = noLoc s1"
      by (simp add: s1_def noLoc_skipWhitespace)
    show ?thesis
    proof (cases "pos s1 \<ge> length content")
      case True
      with \<open>pos s < length content\<close> show ?thesis
        by (simp add: parse_loop.simps[of content _ s] parse_loop.simps[of content _ "noLoc s"]
              n1 s1_def[symmetric])
    next
      case False
      then have lt: "pos s1 < length content" by simp
      note it = noLoc_iteration[OF lt, of l, symmetric]
      show ?thesis
      proof (cases "iteration content l s1")
        case (Inl e)
        with it have "iteration content None (noLoc s1) = Inl e" by simp
        with Inl True False show ?thesis
          by (simp add: parse_loop.simps[of content _ s] parse_loop.simps[of content _ "noLoc s"]
                n1 s1_def[symmetric])
      next
        case (Inr s2)
        with it have i: "iteration content None (noLoc s1) = Inr (noLoc s2)" by simp
        from "1.IH"[OF True s1_def False Inr]
        have ih: "map_sum id noLoc (parse_loop content l s2) = parse_loop content None (noLoc s2)" .
        have L: "parse_loop content l s = parse_loop content l s2"
          using Inr True False by (simp add: parse_loop.simps[of content l s] s1_def[symmetric])
        have R: "parse_loop content None (noLoc s) = parse_loop content None (noLoc s2)"
          using i True False by (simp add: parse_loop.simps[of content None "noLoc s"] n1)
        show ?thesis unfolding L R by (rule ih)
      qed
    qed
  qed
qed

lemma run_tracking:
  "map_sum id noLoc (run content l) = run content None"
proof -
  have "noLoc (initial content) = initial content" by (simp add: noLoc_def initial_def)
  with noLoc_parse_loop[of content l "initial content"] show ?thesis by (simp add: run_def)
qed

lemma parse_tracking: "parse content l = parse content None"
  using run_tracking[of content l, symmetric]
  by (cases "run content l") (auto simp: parse_def)

text \<open>
  Claim C8. Location tracking is not observable in the result: for every input text and
  every \<open>locationKeyName\<close>, \<open>parse\<close> with tracking and \<open>parse\<close> without it give the same
  outcome, the same error when one fails and the same value in the same store when one
  returns; hence also the same tree.
\<close>

theorem tracking_not_observable:
  "parse content (Some locationKeyName) = parse content None
   \<and> parseTree content (Some locationKeyName) = parseTree content None"
  by (simp add: parseTree_def parse_tracking[of content "Some locationKeyName"])

section \<open>Blank input\<close>

lemma skipWhitespace_blank:
  assumes "pos s \<le> length content"
    and "\<forall>i. pos s \<le> i \<and> i < length content \<longrightarrow> isSkippedWhitespace (content ! i)"
  shows "skipWhitespace content None s = s\<lparr>pos := length content\<rparr>"
  using assms
proof (induction content "None :: jsstring option" s rule: skipWhitespace.induct)
  case (1 content s)
  show ?case
  proof (cases "pos s < length content")
    case False
    with "1.prems" have "pos s = length content" by simp
    then show ?thesis by (subst skipWhitespace.simps) simp
  next
    case True
    with "1.prems" have w: "isSkippedWhitespace (content ! pos s)" by simp
    let ?s1 = "advancePosBy content None 1 s"
    have p: "pos ?s1 = pos s + 1" by (simp add: pos_advancePosBy)
    from True w have "skipWhitespace content None s = skipWhitespace content None ?s1"
      by (subst skipWhitespace.simps) simp
    also have "\<dots> = ?s1\<lparr>pos := length content\<rparr>"
      using "1.hyps"[OF True] w True "1.prems"(2) p by simp
    also have "\<dots> = s\<lparr>pos := length content\<rparr>" by (simp add: advancePosBy_def)
    finally show ?thesis .
  qed
qed

lemma parse_loop_blank:
  assumes "pos s \<le> length content"
    and "\<forall>i. pos s \<le> i \<and> i < length content \<longrightarrow> isSkippedWhitespace (content ! i)"
  shows "parse_loop content None s = Inr (s\<lparr>pos := length content\<rparr>)"
proof (cases "pos s < length content")
  case True
  with skipWhitespace_blank[OF assms] show ?thesis
    by (simp add: parse_loop.simps[of content None s])
next
  case False
  with assms(1) have "pos s = length content" by simp
  then show ?thesis by (simp add: parse_loop.simps[of content None s])
qed

text \<open>
  Claim C9. For every text that is empty or holds only the white space the loop skips
  (space, tab, carriage return, line feed), with or without a leading byte-order mark --
  so also for the text that is the byte-order mark alone -- \<open>parse\<close> raises no error and
  returns \<open>null\<close>.
\<close>

theorem blank_input_is_null:
  assumes "\<forall>c \<in> set ws. isSkippedWhitespace c"
  shows "parse ws l = Inr (VNull, []) \<and> parse (BOM # ws) l = Inr (VNull, [])"
proof
  have nb: "ws \<noteq> [] \<Longrightarrow> ws ! 0 \<noteq> BOM"
    using assms by (cases ws) (auto simp: isSkippedWhitespace_def)
  then have i: "pos (initial ws) = 0" by (auto simp: initial_def charCodeAt_def)
  from assms have "\<forall>i. pos (initial ws) \<le> i \<and> i < length ws \<longrightarrow> isSkippedWhitespace (ws ! i)"
    by simp
  from parse_loop_blank[OF _ this] i
  have "parse ws None = Inr (VNull, [])" by (simp add: parse_def run_def) (simp add: initial_def)
  then show "parse ws l = Inr (VNull, [])" by (simp add: parse_tracking[of ws l])
next
  have i: "pos (initial (BOM # ws)) = 1" by (simp add: initial_def charCodeAt_def)
  have "\<forall>i. pos (initial (BOM # ws)) \<le> i \<and> i < length (BOM # ws)
          \<longrightarrow> isSkippedWhitespace ((BOM # ws) ! i)"
    using assms by (auto simp: i nth_Cons split: nat.splits)
  from parse_loop_blank[OF _ this] i
  have "parse (BOM # ws) None = Inr (VNull, [])"
    by (simp add: parse_def run_def) (simp add: initial_def)
  then show "parse (BOM # ws) l = Inr (VNull, [])" by (simp add: parse_tracking[of "BOM # ws" l])
qed

theorem blank_input_is_null_witness:
  "parse [] (Some []) = Inr (VNull, [])
   \<and> parse [SPACE, TAB, CARRIAGE_RETURN, LINE_FEED] (Some []) = Inr (VNull, [])
   \<and> parse [BOM] None = Inr (VNull, [])"
proof -
  have a: "\<forall>c \<in> set [SPACE, TAB, CARRIAGE_RETURN, LINE_FEED]. isSkippedWhitespace c"
    by (simp add: isSkippedWhitespace_def)
  have b: "\<forall>c \<in> set ([] :: jsstring). isSkippedWhitespace c" by simp
  from blank_input_is_null[OF a, of "Some []"] blank_input_is_null[OF b, of "Some []"]
    blank_input_is_null[OF b, of None]
  show ?thesis by simp
qed

section \<open>Evaluating the parser on a given text\<close>

text \<open>
  The two loops unfold one step at a time, under the condition that decides the step, so
  that the simplifier can run the parser on a concrete text.
\<close>

lemma skipWhitespace_step:
  "pos s < length content \<Longrightarrow> isSkippedWhitespace (content ! pos s) \<Longrightarrow>
   skipWhitespace content l s = skipWhitespace content l (advancePosBy content l 1 s)"
  by (subst skipWhitespace.simps) simp

lemma skipWhitespace_stop:
  "\<not> (pos s < length content \<and> isSkippedWhitespace (content ! pos s)) \<Longrightarrow>
   skipWhitespace content l s = s"
  by (subst skipWhitespace.simps) auto

lemma parse_loop_stop: "\<not> pos s < length content \<Longrightarrow> parse_loop content l s = Inr s"
  by (subst parse_loop.simps) simp

lemma parse_loop_step:
  "pos s < length content \<Longrightarrow>
   parse_loop content l s =
     (let s1 = skipWhitespace content l s
      in if pos s1 \<ge> length content then Inr s1
         else (case iteration content l s1 of
                 Inl e \<Rightarrow> Inl e
               | Inr s2 \<Rightarrow> parse_loop content l s2))"
  by (subst parse_loop.simps) simp

lemmas eval_simps =
  str_def charCodeAt_def substr_def substr_from_def substring_def indexOf_def
  isStrWhiteSpace_def trim_def advancePosBy_def advancePosTo_def isSkippedWhitespace_def
  skipWhitespace_step skipWhitespace_stop advanceIfStartsWith_def advanceUntil_def
  captureUntil_def pushState_def popState_def fail_def bindE_def isObject_def
  assignProperty_def arrayPush_def dictState_enter_def arrState_enter_def enterDict_def
  leaveDict_def enterArray_def leaveArray_def acceptKey_def assignCurrent_def
  acceptString_def acceptReal_def acceptInteger_def acceptDate_def acceptData_def
  acceptBool_def digitValue_def isRadixDigit_def digitsToNat_def parseInt_def isDigit_def
  exponentPart_def unsignedDecimalPrefix_def parseFloat_def fromCodePoint_def matchRef_def
  isLowerHexDigit_def namedEntities_def matchNamed_def escapeVal_def parseOpenTag_def
  parseTagValue_def closingTag_def dispatchTag_def iteration_def parse_loop_stop
  parse_loop_step initial_def run_def parse_def parseTree_def Let_def

section \<open>Keys\<close>







section \<open>Numbers\<close>

























section \<open>An unterminated leaf\<close>

lemma first_occurrence_no_sublist:
  assumes "\<not> sublist d xs"
  shows "first_occurrence d xs = None"
proof -
  have "\<not> prefix d (drop j xs)" for j
  proof
    assume "prefix d (drop j xs)"
    then obtain zs where "drop j xs = d @ zs" by (auto simp: prefix_def)
    then have "xs = take j xs @ d @ zs" by (metis append_take_drop_id)
    with assms show False by (auto simp: sublist_def)
  qed
  then show ?thesis by (simp add: first_occurrence_None)
qed

lemma parseTagValue_unterminated:
  assumes "pos s \<le> length content" and "\<not> isClosed tag"
    and "noOccurrenceFrom content (str ''</'') (pos s)"
  shows "\<exists>s'. pos s' = length content \<and> noLoc s' = (noLoc s)\<lparr>pos := length content\<rparr>
           \<and> parseTagValue content l tag s
               = (case escapeVal (drop (pos s) content) of
                    Inl e \<Rightarrow> Inl e
                  | Inr v \<Rightarrow> Inr (v, s'))"
proof -
  define s1 where "s1 = advancePosTo content l (length content) s"
  define s2 where "s2 = advanceUntil content l (str ''>'') s1"
  from assms(3) have i: "indexOf content (str ''</'') (pos s) = None"
    by (simp add: indexOf_None[OF assms(1)])
  then have c: "captureUntil content l (str ''</'') s = (drop (pos s) content, s1)"
    by (simp add: captureUntil_def s1_def substr_from_def)
  have p1: "pos s1 = length content" using assms(1) by (simp add: s1_def pos_advancePosTo)
  have "noLoc s1 = advancePosTo content None (length content) (noLoc s)"
    unfolding s1_def by (rule noLoc_advancePosTo[OF assms(1)])
  then have n1: "noLoc s1 = (noLoc s)\<lparr>pos := length content\<rparr>"
    by (simp add: advancePosTo_def)
  from pos_advanceUntil[of s1 content l "str ''>''"] p1
  have p2: "pos s2 = length content" by (simp add: s2_def)
  have "noLoc s2 = advanceUntil content None (str ''>'') (noLoc s1)"
    using p1 by (simp add: s2_def noLoc_advanceUntil)
  also have "\<dots> = (noLoc s)\<lparr>pos := length content\<rparr>"
  proof (cases "indexOf content (str ''>'') (length content)")
    case None
    then show ?thesis by (simp add: advanceUntil_def n1 advancePosTo_def)
  next
    case (Some k)
    from indexOf_bounds[OF Some] have "k + length (str ''>'') \<le> length content"
      "length content \<le> k" by simp_all
    then have False by (simp add: str_def)
    then show ?thesis ..
  qed
  finally have n2: "noLoc s2 = (noLoc s)\<lparr>pos := length content\<rparr>" .
  have "parseTagValue content l tag s
      = (case escapeVal (drop (pos s) content) of Inl e \<Rightarrow> Inl e | Inr v \<Rightarrow> Inr (v, s2))"
    unfolding s2_def using assms(2) by (simp add: parseTagValue_def c bindE_def)
  with p2 n2 show ?thesis by blast
qed

lemma parse_unterminated_string:
  assumes "\<not> sublist (str ''</'') body"
  shows "parse (str ''<string>'' @ body) l
       = (case escapeVal body of Inl e \<Rightarrow> Inl e | Inr v \<Rightarrow> Inr (VString v, []))"
proof -
  have f: "first_occurrence [LESS_THAN, SLASH] body = None"
    using first_occurrence_no_sublist[OF assms] by (simp add: str_def)
  have "parse (str ''<string>'' @ body) None
       = (case escapeVal body of Inl e \<Rightarrow> Inl e | Inr v \<Rightarrow> Inr (VString v, []))"
    by (cases "escapeVal body")
       (simp_all add: str_def charCodeAt_def substr_def substr_from_def substring_def indexOf_def
          isStrWhiteSpace_def trim_def advancePosBy_def advancePosTo_def isSkippedWhitespace_def
          skipWhitespace_step skipWhitespace_stop advanceIfStartsWith_def advanceUntil_def
          captureUntil_def fail_def bindE_def assignCurrent_def acceptString_def
          parseOpenTag_def parseTagValue_def dispatchTag_def iteration_def parse_loop_stop
          parse_loop_step initial_def run_def parse_def Let_def f)
  then show ?thesis by (simp add: parse_tracking[of _ l])
qed

text \<open>
  Claim C6. When the closing delimiter \<open></\<close> never occurs after a leaf tag that is not
  self-closing, reading the leaf's content does not fail on that account: the content is
  the rest of the input, the position ends at the end of input, nothing else of the
  state changes but the location, and the only error possible is the one unescaping the
  content raises. For a document that is an unterminated \<open><string>\<close> the unescaped rest
  is the result of \<open>parse\<close>.
\<close>

theorem unterminated_leaf_absorbed:
  "(pos s \<le> length content \<and> \<not> isClosed tag
      \<and> noOccurrenceFrom content (str ''</'') (pos s) \<longrightarrow>
      (\<exists>s'. pos s' = length content \<and> noLoc s' = (noLoc s)\<lparr>pos := length content\<rparr>
         \<and> parseTagValue content l tag s
             = (case escapeVal (drop (pos s) content) of
                  Inl e \<Rightarrow> Inl e
                | Inr v \<Rightarrow> Inr (v, s'))))
   \<and> (\<not> sublist (str ''</'') body \<longrightarrow>
        parse (str ''<string>'' @ body) l
          = (case escapeVal body of Inl e \<Rightarrow> Inl e | Inr v \<Rightarrow> Inr (VString v, [])))"
  using parseTagValue_unterminated[of s content tag l] parse_unterminated_string[of body l]
  by blast

theorem unterminated_leaf_absorbed_witness:
  "parse (str ''<string>Hello world'') (Some []) = Inr (VString (str ''Hello world''), [])
   \<and> (\<exists>s'. pos s' = 19
         \<and> parseTagValue (str ''<string>Hello world'') (Some [])
              \<lparr>name = str ''string'', isClosed = False\<rparr>
              ((initial (str ''<string>Hello world''))\<lparr>pos := 8\<rparr>)
            = Inr (str ''Hello world'', s'))"
proof -
  let ?c = "str ''<string>Hello world''"
  let ?s = "(initial ?c)\<lparr>pos := 8\<rparr>"
  let ?t = "\<lparr>name = str ''string'', isClosed = False\<rparr>"
  have a: "\<not> sublist (str ''</'') (str ''Hello world'')"
    by (simp add: str_def sublist_Cons_right)
  have e: "escapeVal (str ''Hello world'') = Inr (str ''Hello world'')"
    by (simp add: eval_simps)
  have c: "str ''<string>'' @ str ''Hello world'' = ?c" by (simp add: str_def)
  have l8: "8 \<le> length ?c" by (simp add: str_def)
  have n: "noOccurrenceFrom ?c (str ''</'') 8"
    unfolding indexOf_None[OF l8, symmetric] by (simp add: indexOf_def str_def)
  have d: "drop 8 ?c = str ''Hello world''" by (simp add: str_def)
  have len: "length ?c = 19" by (simp add: str_def)
  from unterminated_leaf_absorbed[of ?s ?c ?t "Some []" "str ''Hello world''"] a n l8
  have "(\<exists>s'. pos s' = length ?c
           \<and> parseTagValue ?c (Some []) ?t ?s
               = (case escapeVal (drop 8 ?c) of Inl e \<Rightarrow> Inl e | Inr v \<Rightarrow> Inr (v, s')))
      \<and> parse (str ''<string>'' @ str ''Hello world'') (Some [])
          = (case escapeVal (str ''Hello world'') of
               Inl e \<Rightarrow> Inl e
             | Inr v \<Rightarrow> Inr (VString v, []))"
    by auto
  then show ?thesis unfolding c d e len by simp
qed

section \<open>Consistency of the parser state\<close>

text \<open>
  What holds of the state whenever the loop is at its head. \<open>refersTo h st v\<close>: \<open>v\<close> is a
  reference to a dictionary when \<open>st\<close> is \<open>DICT_STATE\<close>, to an array when it is
  \<open>ARR_STATE\<close>. \<open>stackOK\<close>: the state is \<open>ROOT_STATE\<close> exactly when the stack is empty,
  and so down the stack. \<open>bottomOK\<close>: the two oldest of \<open>cur\<close> and the saved objects are
  the same reference, the outermost container. \<open>rootValue\<close> is the value \<open>cur\<close> had when
  the parser last was in \<open>ROOT_STATE\<close>: \<open>cur\<close> itself there, the bottom of the object
  stack otherwise. In a well-formed state no operation on an object is \<open>Unmodelled\<close>.
\<close>

definition refersTo :: "jsobj list \<Rightarrow> State \<Rightarrow> jsval \<Rightarrow> bool" where
  "refersTo h st v =
     (case v of
        VRef a \<Rightarrow>
          a < length h
          \<and> (case h ! a of ODict _ _ \<Rightarrow> st = DICT_STATE | OArr _ \<Rightarrow> st = ARR_STATE)
      | _ \<Rightarrow> False)"

definition frameOK :: "jsobj list \<Rightarrow> State \<Rightarrow> jsval \<Rightarrow> bool" where
  "frameOK h st v \<longleftrightarrow> st = ROOT_STATE \<or> refersTo h st v"

fun stackOK :: "State \<Rightarrow> State list \<Rightarrow> bool" where
  "stackOK st [] = (st = ROOT_STATE)"
| "stackOK st (x # xs) = (st \<noteq> ROOT_STATE \<and> stackOK x xs)"

fun bottomOK :: "jsval \<Rightarrow> jsval list \<Rightarrow> bool" where
  "bottomOK c [] = True"
| "bottomOK c [r] = (c = r)"
| "bottomOK c (x # y # ys) = bottomOK x (y # ys)"


definition wellFormed :: "pstate \<Rightarrow> bool" where
  "wellFormed s \<longleftrightarrow>
     stackOK (state s) (stateStack s)
     \<and> list_all2 (frameOK (heap s)) (stateStack s) (objStack s)
     \<and> frameOK (heap s) (state s) (cur s)
     \<and> bottomOK (cur s) (objStack s)"

definition sameKind :: "jsobj \<Rightarrow> jsobj \<Rightarrow> bool" where
  "sameKind a b = (case a of ODict _ _ \<Rightarrow> (case b of ODict _ _ \<Rightarrow> True | OArr _ \<Rightarrow> False)
                   | OArr _ \<Rightarrow> (case b of ODict _ _ \<Rightarrow> False | OArr _ \<Rightarrow> True))"

definition extends :: "jsobj list \<Rightarrow> jsobj list \<Rightarrow> bool" where
  "extends h h' \<longleftrightarrow> length h \<le> length h' \<and> (\<forall>a < length h. sameKind (h ! a) (h' ! a))"

lemma sameKind_refl [simp]: "sameKind a a"
  by (cases a) (simp_all add: sameKind_def)

lemma sameKind_trans: "sameKind a b \<Longrightarrow> sameKind b c \<Longrightarrow> sameKind a c"
  by (cases a; cases b; cases c) (simp_all add: sameKind_def)

lemma sameKind_simps [simp]:
  "sameKind (ODict p q) (ODict p' q')" "sameKind (OArr xs) (OArr ys)"
  by (simp_all add: sameKind_def)

lemma extends_refl [simp]: "extends h h"
  by (simp add: extends_def)

lemma extends_trans:
  assumes "extends h h'" and "extends h' h''"
  shows "extends h h''"
proof -
  have "sameKind (h ! a) (h'' ! a)" if "a < length h" for a
  proof -
    from that assms have "sameKind (h ! a) (h' ! a)" "sameKind (h' ! a) (h'' ! a)"
      by (simp_all add: extends_def)
    then show ?thesis by (rule sameKind_trans)
  qed
  with assms show ?thesis by (simp add: extends_def)
qed

lemma extends_append [simp]: "extends h (h @ [ob])"
  by (simp add: extends_def nth_append)

lemma extends_update: "a < length h \<Longrightarrow> sameKind (h ! a) ob \<Longrightarrow> extends h (h[a := ob])"
  by (simp add: extends_def nth_list_update)

lemma refersTo_extends:
  assumes "extends h h'" and "refersTo h st v"
  shows "refersTo h' st v"
proof -
  from assms(2) obtain a where v: "v = VRef a" and a: "a < length h"
    and k: "case h ! a of ODict _ _ \<Rightarrow> st = DICT_STATE | OArr _ \<Rightarrow> st = ARR_STATE"
    by (cases v) (simp_all add: refersTo_def)
  from assms(1) a have a': "a < length h'" and s: "sameKind (h ! a) (h' ! a)"
    by (simp_all add: extends_def)
  from s k have "case h' ! a of ODict _ _ \<Rightarrow> st = DICT_STATE | OArr _ \<Rightarrow> st = ARR_STATE"
    by (cases "h ! a"; cases "h' ! a") (simp_all add: sameKind_def)
  with v a' show ?thesis by (simp add: refersTo_def)
qed

lemma frameOK_extends: "extends h h' \<Longrightarrow> frameOK h st v \<Longrightarrow> frameOK h' st v"
  by (auto simp: frameOK_def dest: refersTo_extends)

lemma frames_extends:
  "extends h h' \<Longrightarrow> list_all2 (frameOK h) sts os \<Longrightarrow> list_all2 (frameOK h') sts os"
  by (erule list_all2_mono) (rule frameOK_extends)

lemma refersTo_DICT:
  "refersTo h DICT_STATE v \<longleftrightarrow> (\<exists>a props proto. v = VRef a \<and> a < length h \<and> h ! a = ODict props proto)"
  by (cases v) (auto simp: refersTo_def split: jsobj.splits)

lemma refersTo_ARR:
  "refersTo h ARR_STATE v \<longleftrightarrow> (\<exists>a xs. v = VRef a \<and> a < length h \<and> h ! a = OArr xs)"
  by (cases v) (auto simp: refersTo_def split: jsobj.splits)

lemma assignProperty_ok:
  assumes "refersTo h DICT_STATE target"
  shows "\<exists>h'. assignProperty h target k v = Inr h' \<and> extends h h'"
proof -
  from assms obtain a props proto where t: "target = VRef a" "a < length h" "h ! a = ODict props proto"
    by (auto simp: refersTo_DICT)
  then have "extends h (h[a := ob])" if "sameKind (ODict props proto) ob" for ob
    using that by (simp add: extends_update)
  with t show ?thesis by (simp add: assignProperty_def)
qed

lemma arrayPush_ok:
  assumes "refersTo h ARR_STATE target"
  shows "\<exists>h'. arrayPush h target v = Inr h' \<and> extends h h'"
proof -
  from assms obtain a xs where t: "target = VRef a" "a < length h" "h ! a = OArr xs"
    by (auto simp: refersTo_ARR)
  then have "extends h (h[a := ob])" if "sameKind (OArr xs) ob" for ob
    using that by (simp add: extends_update)
  with t show ?thesis by (simp add: arrayPush_def)
qed


definition builder ::
  "pstate \<Rightarrow> State \<times> jsval \<times> State list \<times> jsval list \<times> jsstring option \<times> jsobj list" where
  "builder s = (state s, cur s, stateStack s, objStack s, curKey s, heap s)"

lemma builder_advancePosBy_loop [simp]: "builder (advancePosBy_loop content n s) = builder s"
  by (induction n arbitrary: s) (simp_all add: builder_def)

lemma builder_advancePosBy [simp]: "builder (advancePosBy content l n s) = builder s"
  by (simp add: advancePosBy_def) (simp add: builder_def)

lemma builder_advancePosTo [simp]: "builder (advancePosTo content l to s) = builder s"
  by (simp add: advancePosTo_def) (simp add: builder_def)

lemma builder_skipWhitespace [simp]: "builder (skipWhitespace content l s) = builder s"
proof (induction content l s rule: skipWhitespace.induct)
  case (1 content l s)
  show ?case
  proof (cases "pos s < length content \<and> isSkippedWhitespace (content ! pos s)")
    case True
    with 1 show ?thesis by (simp add: skipWhitespace_step)
  next
    case False
    then show ?thesis by (simp add: skipWhitespace_stop)
  qed
qed

lemma builder_advanceIfStartsWith [simp]:
  "builder (snd (advanceIfStartsWith content l d s)) = builder s"
  by (simp add: advanceIfStartsWith_def)

lemma builder_advanceUntil [simp]: "builder (advanceUntil content l d s) = builder s"
  by (simp add: advanceUntil_def split: option.splits)

lemma builder_captureUntil [simp]: "builder (snd (captureUntil content l d s)) = builder s"
  by (simp add: captureUntil_def split: option.splits)

lemma builder_captureUntil_eq:
  "captureUntil content l d s = (r, s1) \<Longrightarrow> builder s1 = builder s"
  by (metis builder_captureUntil snd_conv)

lemma builder_parseOpenTag [simp]: "builder (snd (parseOpenTag content l s)) = builder s"
  by (auto simp: parseOpenTag_def Let_def split: prod.splits dest: builder_captureUntil_eq)

lemma builder_parseTagValue:
  "parseTagValue content l tag s = Inr (v, s') \<Longrightarrow> builder s' = builder s"
  by (auto simp: parseTagValue_def Let_def bindE_def split: if_splits prod.splits sum.splits
           dest: builder_captureUntil_eq)

lemma wellFormed_builder: "builder s = builder s' \<Longrightarrow> wellFormed s = wellFormed s'"
  by (simp add: builder_def wellFormed_def)

definition safe :: "error + pstate \<Rightarrow> bool" where
  "safe r = (case r of Inl e \<Rightarrow> e \<noteq> Unmodelled | Inr s \<Rightarrow> wellFormed s)"

lemma safe_simps [simp]:
  "safe (Inr s) = wellFormed s" "safe (Inl (fail content s msg))" "safe (Inl RangeError)"
  by (simp_all add: safe_def fail_def)

lemma bottomOK_push: "os \<noteq> [] \<Longrightarrow> bottomOK c os \<Longrightarrow> bottomOK new (c # os)"
  by (cases os) simp_all

lemma bottomOK_pop: "bottomOK c (x # os) \<Longrightarrow> bottomOK x os"
  by (cases os) simp_all

lemma wellFormed_popState:
  assumes "wellFormed s" and "state s \<noteq> ROOT_STATE"
  shows "wellFormed (popState s)"
proof -
  from assms obtain st sts where ss: "stateStack s = st # sts"
    by (cases "stateStack s") (simp_all add: wellFormed_def)
  with assms obtain ob obs where os: "objStack s = ob # obs"
    by (cases "objStack s") (simp_all add: wellFormed_def)
  from assms ss os show ?thesis
    by (auto simp: wellFormed_def popState_def dest: bottomOK_pop)
qed

lemma wellFormed_pushState:
  assumes "wellFormed s" and "state s \<noteq> ROOT_STATE" and "st \<noteq> ROOT_STATE"
    and "refersTo (heap s) st new"
  shows "wellFormed (pushState st new s)"
proof -
  from assms have "objStack s \<noteq> []"
    by (cases "stateStack s") (auto simp: wellFormed_def)
  with assms show ?thesis
    by (auto simp: wellFormed_def pushState_def frameOK_def intro: bottomOK_push)
qed

lemma refersTo_new:
  "refersTo (h @ [ODict [] None]) DICT_STATE (VRef (length h))"
  "refersTo (h @ [OArr []]) ARR_STATE (VRef (length h))"
  by (simp_all add: refersTo_def)

lemma wellFormed_heap:
  "wellFormed s \<Longrightarrow> extends (heap s) h \<Longrightarrow> wellFormed (s\<lparr>heap := h\<rparr>)"
  by (auto simp: wellFormed_def intro: frameOK_extends frames_extends)

lemma wellFormed_curKey [simp]: "wellFormed (s\<lparr>curKey := k\<rparr>) = wellFormed s"
  by (simp add: wellFormed_def)


lemma wellFormed_DICT: "wellFormed s \<Longrightarrow> state s = DICT_STATE \<Longrightarrow> refersTo (heap s) DICT_STATE (cur s)"
  by (simp add: wellFormed_def frameOK_def)

lemma wellFormed_ARR: "wellFormed s \<Longrightarrow> state s = ARR_STATE \<Longrightarrow> refersTo (heap s) ARR_STATE (cur s)"
  by (simp add: wellFormed_def frameOK_def)

lemma wellFormed_ROOT:
  "wellFormed s \<Longrightarrow> state s = ROOT_STATE \<Longrightarrow> stateStack s = [] \<and> objStack s = []"
  by (cases "stateStack s") (auto simp: wellFormed_def)

lemma State_else: "st \<noteq> DICT_STATE \<Longrightarrow> st \<noteq> ARR_STATE \<Longrightarrow> st = ROOT_STATE"
  by (cases st) simp_all

lemma safe_enter_nested:
  assumes w: "wellFormed s" and ns: "state s \<noteq> ROOT_STATE" and st: "st \<noteq> ROOT_STATE"
    and new: "refersTo (heap s @ [ob]) st (VRef (length (heap s)))"
    and e: "extends (heap s @ [ob]) h"
  shows "wellFormed (pushState st (VRef (length (heap s))) (s\<lparr>heap := h, curKey := k\<rparr>))"
proof -
  have ex: "extends (heap s) h" using extends_trans[OF extends_append e] .
  have "wellFormed (s\<lparr>heap := h, curKey := k\<rparr>)" using wellFormed_heap[OF w ex] by simp
  moreover have "refersTo h st (VRef (length (heap s)))" using refersTo_extends[OF e new] .
  ultimately show ?thesis using ns st by (intro wellFormed_pushState) simp_all
qed

lemma safe_dictState_enter:
  assumes "wellFormed s" and "state s = DICT_STATE" and "st \<noteq> ROOT_STATE"
    and "refersTo (heap s @ [ob]) st (VRef (length (heap s)))"
  shows "safe (dictState_enter content ob st s)"
proof (cases "curKey s")
  case None
  then show ?thesis by (simp add: dictState_enter_def)
next
  case (Some k)
  from wellFormed_DICT[OF assms(1,2)]
  have "refersTo (heap s @ [ob]) DICT_STATE (cur s)" by (rule refersTo_extends[OF extends_append])
  from assignProperty_ok[OF this, of k "VRef (length (heap s))"]
  obtain h where h: "assignProperty (heap s @ [ob]) (cur s) k (VRef (length (heap s))) = Inr h"
    "extends (heap s @ [ob]) h" by blast
  from safe_enter_nested[OF assms(1) _ assms(3,4) h(2), of None] assms(2) Some h(1)
  show ?thesis by (simp add: dictState_enter_def bindE_def)
qed

lemma safe_arrState_enter:
  assumes "wellFormed s" and "state s = ARR_STATE" and "st \<noteq> ROOT_STATE"
    and "refersTo (heap s @ [ob]) st (VRef (length (heap s)))"
  shows "safe (arrState_enter ob st s)"
proof -
  from wellFormed_ARR[OF assms(1,2)]
  have "refersTo (heap s @ [ob]) ARR_STATE (cur s)" by (rule refersTo_extends[OF extends_append])
  from arrayPush_ok[OF this, of "VRef (length (heap s))"]
  obtain h where h: "arrayPush (heap s @ [ob]) (cur s) (VRef (length (heap s))) = Inr h"
    "extends (heap s @ [ob]) h" by blast
  from safe_enter_nested[OF assms(1) _ assms(3,4) h(2), of "curKey s"] assms(2) h(1)
  show ?thesis by (simp add: arrState_enter_def bindE_def)
qed

lemma safe_enter_root:
  assumes "wellFormed s" and "state s = ROOT_STATE" and "st \<noteq> ROOT_STATE"
    and "refersTo (heap s @ [ob]) st (VRef (length (heap s)))"
  shows "wellFormed (pushState st (VRef (length (heap s)))
           (s\<lparr>heap := heap s @ [ob], cur := VRef (length (heap s))\<rparr>))"
  using assms wellFormed_ROOT[OF assms(1,2)]
  by (simp add: wellFormed_def pushState_def frameOK_def)

lemma safe_enterDict: "wellFormed s \<Longrightarrow> safe (enterDict content s)"
  using safe_dictState_enter[of s DICT_STATE "ODict [] None" content]
        safe_arrState_enter[of s DICT_STATE "ODict [] None"]
        safe_enter_root[of s DICT_STATE "ODict [] None"]
  by (auto simp: enterDict_def Let_def refersTo_new dest: State_else)

lemma safe_enterArray: "wellFormed s \<Longrightarrow> safe (enterArray content s)"
  using safe_dictState_enter[of s ARR_STATE "OArr []" content]
        safe_arrState_enter[of s ARR_STATE "OArr []"]
        safe_enter_root[of s ARR_STATE "OArr []"]
  by (auto simp: enterArray_def Let_def refersTo_new dest: State_else)

lemma safe_leaveDict: "wellFormed s \<Longrightarrow> safe (leaveDict content s)"
  by (simp add: leaveDict_def wellFormed_popState)

lemma safe_leaveArray: "wellFormed s \<Longrightarrow> safe (leaveArray content s)"
  by (simp add: leaveArray_def wellFormed_popState)

lemma safe_acceptKey: "wellFormed s \<Longrightarrow> safe (acceptKey content v s)"
  by (simp add: acceptKey_def)

lemma safe_assignCurrent:
  assumes "wellFormed s"
  shows "safe (assignCurrent content v s)"
proof (cases "state s")
  case ROOT_STATE
  with assms wellFormed_ROOT[OF assms] show ?thesis
    by (simp add: assignCurrent_def wellFormed_def frameOK_def)
next
  case DICT_STATE
  show ?thesis
  proof (cases "curKey s")
    case None
    with DICT_STATE show ?thesis by (simp add: assignCurrent_def)
  next
    case (Some k)
    from assignProperty_ok[OF wellFormed_DICT[OF assms DICT_STATE], of k v]
    obtain h where "assignProperty (heap s) (cur s) k v = Inr h" "extends (heap s) h" by blast
    with DICT_STATE Some wellFormed_heap[OF assms, of h] show ?thesis
      by (simp add: assignCurrent_def bindE_def)
  qed
next
  case ARR_STATE
  from arrayPush_ok[OF wellFormed_ARR[OF assms ARR_STATE], of v]
  obtain h where "arrayPush (heap s) (cur s) v = Inr h" "extends (heap s) h" by blast
  with ARR_STATE wellFormed_heap[OF assms, of h] show ?thesis
    by (simp add: assignCurrent_def bindE_def)
qed


lemma fromCodePoint_error: "fromCodePoint n = Inl e \<Longrightarrow> e = RangeError"
  by (auto simp: fromCodePoint_def split: option.splits if_splits)

lemma replaceRefs_error: "replaceRefs p isDig radix xs = Inl e \<Longrightarrow> e = RangeError"
proof (induction p isDig radix xs rule: replaceRefs.induct)
  case (1 p isDig radix)
  then show ?case by simp
next
  case (2 p isDig radix x xs)
  show ?case
  proof (cases "matchRef p isDig (x # xs)")
    case None
    with 2 show ?thesis by (auto split: sum.splits)
  next
    case (Some m)
    obtain m0 after where m: "m = (m0, after)" by (cases m)
    show ?thesis
    proof (cases "fromCodePoint (parseInt m0 radix)")
      case (Inl e')
      with "2.prems" Some m show ?thesis
        by (auto simp: bindE_def dest: fromCodePoint_error)
    next
      case (Inr cp)
      with "2.prems" Some m "2.IH"(2)[OF Some m[symmetric]] show ?thesis
        by (auto simp: bindE_def split: sum.splits)
    qed
  qed
qed

lemma escapeVal_error: "escapeVal x = Inl e \<Longrightarrow> e = RangeError"
  by (auto simp: escapeVal_def bindE_def split: sum.splits dest: replaceRefs_error)

lemma parseTagValue_error: "parseTagValue content l tag s = Inl e \<Longrightarrow> e = RangeError"
  by (auto simp: parseTagValue_def bindE_def Let_def split: if_splits prod.splits sum.splits
           dest: escapeVal_error)

lemma safe_leaf:
  assumes "wellFormed s" and "\<And>v s1. wellFormed s1 \<Longrightarrow> safe (f v s1)"
  shows "safe (bindE (parseTagValue content l tag s) (\<lambda>(v, s1). f v s1))"
proof (cases "parseTagValue content l tag s")
  case (Inl e)
  with parseTagValue_error[OF Inl] show ?thesis by (simp add: bindE_def)
next
  case (Inr p)
  obtain v s1 where p: "p = (v, s1)" by (cases p)
  from builder_parseTagValue[OF Inr[unfolded p]] assms(1) have "wellFormed s1"
    by (simp add: wellFormed_builder[of s1 s])
  with Inr p assms(2) show ?thesis by (simp add: bindE_def)
qed

lemma safe_enter_leave:
  assumes "safe r" and "\<And>s1. wellFormed s1 \<Longrightarrow> safe (f s1)"
  shows "safe (bindE r (\<lambda>s1. if b then f s1 else Inr s1))"
  using assms by (cases r) (auto simp: bindE_def safe_def)

lemma safe_dispatchTag:
  assumes "wellFormed s"
  shows "safe (dispatchTag content l tag s)"
proof -
  note leaf = safe_leaf[OF assms, of _ content l tag]
  have k: "safe (bindE (parseTagValue content l tag s) (\<lambda>(v, s1). acceptKey content v s1))"
    by (rule leaf) (rule safe_acceptKey)
  have st: "safe (bindE (parseTagValue content l tag s) (\<lambda>(v, s1). acceptString content v s1))"
    by (rule leaf) (simp add: acceptString_def safe_assignCurrent)
  have re: "safe (bindE (parseTagValue content l tag s)
                (\<lambda>(v, s1). acceptReal content (parseFloat v) s1))"
    by (rule leaf) (simp add: acceptReal_def safe_assignCurrent split: option.splits)
  have i: "safe (bindE (parseTagValue content l tag s)
                (\<lambda>(v, s1). acceptInteger content (parseInt v 10) s1))"
    by (rule leaf) (simp add: acceptInteger_def safe_assignCurrent split: option.splits)
  have da: "safe (bindE (parseTagValue content l tag s)
                (\<lambda>(v, s1). acceptDate content (VDate v) s1))"
    by (rule leaf) (simp add: acceptDate_def safe_assignCurrent)
  have dt: "safe (bindE (parseTagValue content l tag s) (\<lambda>(v, s1). acceptData content v s1))"
    by (rule leaf) (simp add: acceptData_def safe_assignCurrent)
  have b: "safe (bindE (parseTagValue content l tag s) (\<lambda>(v, s1). acceptBool content x s1))" for x
    by (rule leaf) (simp add: acceptBool_def safe_assignCurrent)
  have d: "safe (bindE (enterDict content s)
                (\<lambda>s1. if isClosed tag then leaveDict content s1 else Inr s1))"
    by (rule safe_enter_leave[OF safe_enterDict[OF assms]]) (rule safe_leaveDict)
  have a: "safe (bindE (enterArray content s)
                (\<lambda>s1. if isClosed tag then leaveArray content s1 else Inr s1))"
    by (rule safe_enter_leave[OF safe_enterArray[OF assms]]) (rule safe_leaveArray)
  show ?thesis
    unfolding dispatchTag_def
    by (simp add: k st re i da dt b d a assms)
qed

lemma safe_closingTag:
  assumes "wellFormed s"
  shows "safe (closingTag content l s)"
proof -
  define s1 where "s1 = skipWhitespace content l (advancePosBy content l 1 s)"
  obtain b2 s2 where a2: "advanceIfStartsWith content l (str ''plist'') s1 = (b2, s2)"
    by (cases "advanceIfStartsWith content l (str ''plist'') s1")
  obtain b3 s3 where a3: "advanceIfStartsWith content l (str ''dict'') s2 = (b3, s3)"
    by (cases "advanceIfStartsWith content l (str ''dict'') s2")
  obtain b4 s4 where a4: "advanceIfStartsWith content l (str ''array'') s3 = (b4, s4)"
    by (cases "advanceIfStartsWith content l (str ''array'') s3")
  have b1: "builder s1 = builder s" by (simp add: s1_def)
  have b2: "builder s2 = builder s"
    using builder_advanceIfStartsWith[of content l "str ''plist''" s1] a2 b1 by simp
  have b3: "builder s3 = builder s"
    using builder_advanceIfStartsWith[of content l "str ''dict''" s2] a3 b2 by simp
  have b4: "builder s4 = builder s"
    using builder_advanceIfStartsWith[of content l "str ''array''" s3] a4 b3 by simp
  have w: "wellFormed (advanceUntil content l (str ''>'') t)" if "builder t = builder s" for t
    using assms that wellFormed_builder[of "advanceUntil content l (str ''>'') t" s] by simp
  have l: "closingTag content l s =
      (if b2 then Inr (advanceUntil content l (str ''>'') s2)
       else if b3 then leaveDict content (advanceUntil content l (str ''>'') s3)
       else if b4 then leaveArray content (advanceUntil content l (str ''>'') s4)
       else Inl (fail content s4 (str ''unexpected closed tag'')))"
    unfolding closingTag_def Let_def s1_def[symmetric] by (simp add: a2 a3 a4)
  show ?thesis
    unfolding l using w[OF b2] w[OF b3] w[OF b4]
    by (simp add: safe_leaveDict safe_leaveArray)
qed

lemma safe_iteration:
  assumes "wellFormed s"
  shows "safe (iteration content l s)"
proof -
  define s1 where "s1 = advancePosBy content l 1 s"
  define s2 where "s2 = advancePosBy content l 1 s1"
  obtain b3 s3 where a3: "advanceIfStartsWith content l (str ''--'') s2 = (b3, s3)"
    by (cases "advanceIfStartsWith content l (str ''--'') s2")
  obtain tag s4 where a4: "parseOpenTag content l s1 = (tag, s4)"
    by (cases "parseOpenTag content l s1")
  have b1: "builder s1 = builder s" by (simp add: s1_def)
  have b2: "builder s2 = builder s" by (simp add: s2_def b1)
  have b3: "builder s3 = builder s"
    using builder_advanceIfStartsWith[of content l "str ''--''" s2] a3 b2 by simp
  have b4: "builder s4 = builder s"
    using builder_parseOpenTag[of content l s1] a4 b1 by simp
  have w: "wellFormed t" if "builder t = builder s" for t
    using assms that wellFormed_builder[of t s] by simp
  have wu: "wellFormed (advanceUntil content l d t)" if "builder t = builder s" for t d
    using that by (intro w) simp
  have l: "iteration content l s =
      (if charCodeAt content (pos s) \<noteq> Some LESS_THAN then Inl (fail content s1 (str ''expected <''))
       else if pos s1 \<ge> length content then Inl (fail content s1 (str ''unexpected end of input''))
       else if charCodeAt content (pos s1) = Some QUESTION_MARK
         then Inr (advanceUntil content l (str ''?>'') s2)
       else if charCodeAt content (pos s1) = Some EXCLAMATION_MARK
         then (if b3 then Inr (advanceUntil content l (str ''-->'') s3)
               else Inr (advanceUntil content l (str ''>'') s3))
       else if charCodeAt content (pos s1) = Some SLASH then closingTag content l s1
       else dispatchTag content l tag s4)"
    unfolding iteration_def Let_def s1_def[symmetric] s2_def[symmetric]
    by (simp add: a3 a4)
  show ?thesis
    unfolding l
    using wu[OF b2] wu[OF b3] safe_closingTag[OF w[OF b1]] safe_dispatchTag[OF w[OF b4]]
    by simp
qed

lemma safe_parse_loop: "wellFormed s \<Longrightarrow> safe (parse_loop content l s)"
proof (induction content l s rule: parse_loop.induct)
  case (1 content l s)
  show ?case
  proof (cases "pos s < length content")
    case False
    with "1.prems" show ?thesis by (simp add: parse_loop_stop)
  next
    case True
    define s1 where "s1 = skipWhitespace content l s"
    have w1: "wellFormed s1"
      using "1.prems" wellFormed_builder[of s1 s] by (simp add: s1_def)
    show ?thesis
    proof (cases "pos s1 \<ge> length content")
      case True
      with \<open>pos s < length content\<close> w1 show ?thesis
        by (simp add: parse_loop_step s1_def[symmetric])
    next
      case False
      show ?thesis
      proof (cases "iteration content l s1")
        case (Inl e)
        with safe_iteration[OF w1, of content l] have "e \<noteq> Unmodelled" by (simp add: safe_def)
        with Inl True False show ?thesis
          by (simp add: parse_loop_step s1_def[symmetric] safe_def)
      next
        case (Inr s2)
        with safe_iteration[OF w1, of content l] have w2: "wellFormed s2" by simp
        have "parse_loop content l s = parse_loop content l s2"
          using Inr True False by (simp add: parse_loop_step s1_def[symmetric])
        with "1.IH"[OF True s1_def False Inr w2] show ?thesis by simp
      qed
    qed
  qed
qed

lemma wellFormed_initial: "wellFormed (initial content)"
  by (simp add: wellFormed_def initial_def frameOK_def)

lemma safe_run: "safe (run content l)"
  unfolding run_def by (rule safe_parse_loop[OF wellFormed_initial])







section \<open>Several top-level values\<close>







section \<open>Values in a dictionary\<close>

lemma assignProperty_dict:
  assumes "target = VRef a" and "a < length h" and "h ! a = ODict props proto"
    and "k \<noteq> str ''__proto__''"
  shows "assignProperty h target k v = Inr (h[a := ODict (AList.update k v props) proto])"
  using assms by (simp add: assignProperty_def)

text \<open>
  The assign-value rule in \<open>DICT_STATE\<close>, for every key but \<open>__proto__\<close>. The six accept
  functions are one rule. With no pending key the rule, and the opening of a nested
  dictionary or array, fail with "missing <key>". With a pending key the value (for an
  opening tag, the reference to the new container) becomes the own property of that name
  of the current dictionary, and the pending key is cleared. Pushing and popping a state
  leave the pending key alone.
\<close>

theorem dict_assign_rule:
  "state s = DICT_STATE \<longrightarrow>
     (curKey s = None \<longrightarrow>
        assignCurrent content v s = Inl (fail content s (str ''missing <key>''))
        \<and> enterDict content s = Inl (fail content s (str ''missing <key>''))
        \<and> enterArray content s = Inl (fail content s (str ''missing <key>'')))
     \<and> (\<forall>k a props proto.
           curKey s = Some k \<and> k \<noteq> str ''__proto__'' \<and> cur s = VRef a
           \<and> a < length (heap s) \<and> heap s ! a = ODict props proto \<longrightarrow>
             assignCurrent content v s
               = Inr (s\<lparr>heap := (heap s)[a := ODict (AList.update k v props) proto],
                        curKey := None\<rparr>)
             \<and> map_of (AList.update k v props) k = Some v
             \<and> enterDict content s
               = Inr (pushState DICT_STATE (VRef (length (heap s)))
                       (s\<lparr>heap := (heap s @ [ODict [] None])
                                  [a := ODict (AList.update k (VRef (length (heap s))) props) proto],
                          curKey := None\<rparr>))
             \<and> enterArray content s
               = Inr (pushState ARR_STATE (VRef (length (heap s)))
                       (s\<lparr>heap := (heap s @ [OArr []])
                                  [a := ODict (AList.update k (VRef (length (heap s))) props) proto],
                          curKey := None\<rparr>)))
     \<and> acceptString content x s = assignCurrent content (VString x) s
     \<and> acceptData content x s = assignCurrent content (VString x) s
     \<and> acceptInteger content (Some i) s = assignCurrent content (VNumber (IntNum i)) s
     \<and> acceptReal content (Some lit) s = assignCurrent content (VNumber (FloatLit lit)) s
     \<and> acceptDate content d s = assignCurrent content d s
     \<and> acceptBool content b s = assignCurrent content (VBool b) s
     \<and> curKey (popState s) = curKey s
     \<and> curKey (pushState st new s) = curKey s"
proof (intro impI conjI allI)
  fix k a props proto
  assume d: "state s = DICT_STATE"
    and a: "curKey s = Some k \<and> k \<noteq> str ''__proto__'' \<and> cur s = VRef a
           \<and> a < length (heap s) \<and> heap s ! a = ODict props proto"
  from a show "assignCurrent content v s
      = Inr (s\<lparr>heap := (heap s)[a := ODict (AList.update k v props) proto], curKey := None\<rparr>)"
    using d by (simp add: assignCurrent_def bindE_def assignProperty_dict)
  show "map_of (AList.update k v props) k = Some v"
    by (simp add: update_conv')
  from a have n: "(heap s @ [ob]) ! a = ODict props proto" "a < length (heap s @ [ob])" for ob
    by (simp_all add: nth_append)
  from a d show "enterDict content s
      = Inr (pushState DICT_STATE (VRef (length (heap s)))
              (s\<lparr>heap := (heap s @ [ODict [] None])
                         [a := ODict (AList.update k (VRef (length (heap s))) props) proto],
                 curKey := None\<rparr>))"
    by (simp add: enterDict_def dictState_enter_def bindE_def Let_def
          assignProperty_dict[OF _ n(2) n(1)])
  from a d show "enterArray content s
      = Inr (pushState ARR_STATE (VRef (length (heap s)))
              (s\<lparr>heap := (heap s @ [OArr []])
                         [a := ODict (AList.update k (VRef (length (heap s))) props) proto],
                 curKey := None\<rparr>))"
    by (simp add: enterArray_def dictState_enter_def bindE_def Let_def
          assignProperty_dict[OF _ n(2) n(1)])
qed (simp_all add: assignCurrent_def enterDict_def enterArray_def dictState_enter_def
       acceptString_def acceptData_def acceptInteger_def acceptReal_def acceptDate_def
       acceptBool_def popState_def pushState_def)


theorem dict_assign_rule_witness:
  "assignCurrent [] (VString (str ''x''))
     \<lparr>pos = 0, line = 1, char = 0, state = DICT_STATE, cur = VRef 0,
      stateStack = [ROOT_STATE], objStack = [VRef 0], curKey = Some (str ''a''),
      heap = [ODict [] None]\<rparr>
   = Inr \<lparr>pos = 0, line = 1, char = 0, state = DICT_STATE, cur = VRef 0,
      stateStack = [ROOT_STATE], objStack = [VRef 0], curKey = None,
      heap = [ODict [(str ''a'', VString (str ''x''))] None]\<rparr>
   \<and> assignCurrent [] (VString (str ''x''))
     \<lparr>pos = 0, line = 1, char = 0, state = DICT_STATE, cur = VRef 0,
      stateStack = [ROOT_STATE], objStack = [VRef 0], curKey = None,
      heap = [ODict [] None]\<rparr>
   = Inl (Error 0 (str ''missing <key>'') [])"
proof -
  let ?s = "\<lparr>pos = 0, line = 1, char = 0, state = DICT_STATE, cur = VRef 0,
      stateStack = [ROOT_STATE], objStack = [VRef 0], curKey = Some (str ''a''),
      heap = [ODict [] None]\<rparr>"
  let ?t = "\<lparr>pos = 0, line = 1, char = 0, state = DICT_STATE, cur = VRef 0,
      stateStack = [ROOT_STATE], objStack = [VRef 0], curKey = None,
      heap = [ODict [] None]\<rparr>"
  have k: "str ''a'' \<noteq> str ''__proto__''" by (simp add: str_def)
  from dict_assign_rule[of ?s "[]" "VString (str ''x'')"] k
  have "assignCurrent [] (VString (str ''x'')) ?s
      = Inr (?s\<lparr>heap := (heap ?s)[0 := ODict (AList.update (str ''a'') (VString (str ''x'')) []) None],
               curKey := None\<rparr>)"
    by simp
  moreover from dict_assign_rule[of ?t "[]" "VString (str ''x'')"]
  have "assignCurrent [] (VString (str ''x'')) ?t = Inl (fail [] ?t (str ''missing <key>''))"
    by simp
  ultimately show ?thesis by (simp add: fail_def substr_def)
qed

text \<open>
  Claim C3 says that with a pending key the value is stored under it. For the key
  \<open>__proto__\<close> the code does not do so: \<open>cur[curKey] = val\<close> then goes to the prototype
  accessor, and the dictionary is left without the entry, though the pending key is
  cleared. The document below parses to the empty dictionary; with any other key it
  parses to the dictionary holding the entry.
\<close>

theorem proto_key_not_stored:
  "parse (str ''<dict><key>__proto__</key><string>x</string></dict>'') None
     = Inr (VRef 0, [ODict [] None])
   \<and> parseTree (str ''<dict><key>__proto__</key><string>x</string></dict>'') None
     = Inr (Some (PDict []))
   \<and> parseTree (str ''<dict><key>a</key><string>x</string></dict>'') None
     = Inr (Some (PDict [(str ''a'', PString (str ''x''))]))"
  by (simp add: eval_simps)

text \<open>
  The state stays consistent: \<open>parse\<close> never meets an object of the wrong shape, and when
  the loop ends the state is \<open>ROOT_STATE\<close> exactly when no container is open, the two
  stacks have the same height, and \<open>cur\<close> and every saved object refer to containers of
  the kind their state names.
\<close>

theorem state_always_consistent:
  "case run content l of
     Inl e \<Rightarrow> e \<noteq> Unmodelled
   | Inr s \<Rightarrow>
       wellFormed s
       \<and> (state s = ROOT_STATE \<longleftrightarrow> stateStack s = [])
       \<and> length (objStack s) = length (stateStack s)"
proof (cases "run content l")
  case (Inl e)
  with safe_run[of content l] show ?thesis by (simp add: safe_def)
next
  case (Inr s)
  with safe_run[of content l] have w: "wellFormed s" by simp
  then have "length (objStack s) = length (stateStack s)"
    by (auto simp: wellFormed_def dest: list_all2_lengthD)
  moreover from w have "state s = ROOT_STATE \<longleftrightarrow> stateStack s = []"
    by (cases "stateStack s") (simp_all add: wellFormed_def)
  ultimately show ?thesis using Inr w by simp
qed

section \<open>Unescaping\<close>






datatype piece =
    Text jsstring
  | DecRef jsstring
  | HexRef jsstring
  | Entity jsstring
  | Other jsstring






























text \<open>The body of each piece that begins with an ampersand.\<close>

fun body :: "piece \<Rightarrow> jsstring" where
  "body (Text xs) = []"
| "body (DecRef ds) = 35 # ds"
| "body (HexRef hs) = 35 # 120 # hs"
| "body (Entity n) = n"
| "body (Other b) = b"



























end
